theory Spec2Isabelle
  imports Main "HOL-Library.Sublist" "HOL-Library.Char_ord" "HOL-Library.List_Lexorder"
begin

section \<open>Python string primitives used by the tools\<close>

text \<open>
  A Python \<open>str\<close> is modelled as a \<open>string\<close> (a list of characters). The characters
  of the model are the code points below 256; what the standard library does on other
  code points is not part of the model.
\<close>

definition startswith :: "string \<Rightarrow> string \<Rightarrow> bool" where
  "startswith s p = (take (length p) s = p)"

definition endswith :: "string \<Rightarrow> string \<Rightarrow> bool" where
  "endswith s p = (drop (length s - length p) s = p \<and> length p \<le> length s)"

text \<open>\<open>s.rstrip("/")\<close>: every trailing slash goes.\<close>

definition rstrip_slash :: "string \<Rightarrow> string" where
  "rstrip_slash s = rev (dropWhile (\<lambda>c. c = CHR ''/'') (rev s))"

text \<open>\<open>s.split(c, 1)\<close> for a separator \<open>c\<close> that occurs in \<open>s\<close>.\<close>

definition split_once :: "char \<Rightarrow> string \<Rightarrow> string \<times> string" where
  "split_once c s = (takeWhile (\<lambda>x. x \<noteq> c) s, drop 1 (dropWhile (\<lambda>x. x \<noteq> c) s))"

text \<open>\<open>s.split(c)\<close>: the pieces between the separators, at least one piece.\<close>

fun split_sep :: "char \<Rightarrow> string \<Rightarrow> string list" where
  "split_sep c [] = [[]]"
| "split_sep c (x # xs) =
     (if x = c then [] # split_sep c xs
      else (x # hd (split_sep c xs)) # tl (split_sep c xs))"

text \<open>\<open>c.join(pieces)\<close>.\<close>

fun join_sep :: "char \<Rightarrow> string list \<Rightarrow> string" where
  "join_sep c [] = []"
| "join_sep c [p] = p"
| "join_sep c (p # q # ps) = p @ c # join_sep c (q # ps)"

definition is_ascii_alpha :: "char \<Rightarrow> bool" where
  "is_ascii_alpha c =
     (let n = (of_char c :: nat) in (65 \<le> n \<and> n \<le> 90) \<or> (97 \<le> n \<and> n \<le> 122))"

definition is_ascii :: "char \<Rightarrow> bool" where
  "is_ascii c = ((of_char c :: nat) < 128)"

text \<open>\<open>str.lower\<close> on one character; it is only applied to scheme characters.\<close>

definition lower_char :: "char \<Rightarrow> char" where
  "lower_char c =
     (let n = (of_char c :: nat) in if 65 \<le> n \<and> n \<le> 90 then char_of (n + 32) else c)"

section \<open>The standard library's URL functions (urllib.parse, CPython 3.11)\<close>

text \<open>
  The tools call \<open>urlsplit\<close>, \<open>urlunsplit\<close> and \<open>urljoin\<close> of the standard library.
  They decide what \<open>normalize_url\<close> and \<open>is_allowed\<close> return, so they are modelled
  here statement by statement from \<open>urllib/parse.py\<close>.
\<close>

datatype error =
    Invalid_IPv6_URL
  | Invalid_bracketed_host
  | Invalid_netloc_NFKC
  | Start_outside_prefix string string

text \<open>
  All four are Python \<open>ValueError\<close>s: the first three are raised by \<open>urlsplit\<close>,
  the last one by \<open>crawl\<close>, with the normalized start URL and the normalized prefix
  of its message.
\<close>

text \<open>
  What lies outside the program: the network, the HTML tokenizer, the iteration order of
  a Python set, and two checks of \<open>urlsplit\<close> that call \<open>ipaddress\<close> and
  \<open>unicodedata\<close>. \<open>fetch_html w u\<close> is what the source's \<open>fetch_html(u)\<close> returns:
  the decoded body, or the empty string when the request fails. \<open>starttags w html\<close> is
  the sequence of \<open>handle_starttag(tag, attrs)\<close> calls that \<open>HTMLParser.feed(html)\<close>
  makes; an attribute without a value has \<open>None\<close>. \<open>set_order w xs\<close> is the order in
  which Python iterates over the set holding the distinct elements \<open>xs\<close>.
  \<open>bracketed_host_ok w h\<close> says that \<open>_check_bracketed_host(h)\<close> returns without
  raising, \<open>nfkc_ok w n\<close> that \<open>_checknetloc(n)\<close> does for a non-ASCII \<open>n\<close>.

  \<open>fetch_html\<close> of the source catches \<open>URLError\<close>, \<open>HTTPError\<close> and
  \<open>UnicodeDecodeError\<close> only. A call that lets another exception escape (a
  \<open>ValueError\<close> of \<open>Request\<close> for a URL without a scheme, an
  \<open>InvalidURL\<close>, an error while the body is read) ends the run there. The model
  has no value for such a call: it follows a run as long as every call of
  \<open>fetch_html\<close> returns, and the states it reaches are the states of the source up
  to the first call that does not.
\<close>

record world =
  fetch_html :: "string \<Rightarrow> string"
  starttags :: "string \<Rightarrow> (string \<times> (string \<times> string option) list) list"
  set_order :: "string list \<Rightarrow> string list"
  bracketed_host_ok :: "string \<Rightarrow> bool"
  nfkc_ok :: "string \<Rightarrow> bool"

definition uses_relative :: "string list" where
  "uses_relative = ['''', ''ftp'', ''http'', ''gopher'', ''nntp'', ''imap'',
     ''wais'', ''file'', ''https'', ''shttp'', ''mms'', ''prospero'', ''rtsp'', ''rtsps'',
     ''rtspu'', ''sftp'', ''svn'', ''svn+ssh'', ''ws'', ''wss'']"

definition uses_netloc :: "string list" where
  "uses_netloc = ['''', ''ftp'', ''http'', ''gopher'', ''nntp'', ''telnet'',
     ''imap'', ''wais'', ''file'', ''mms'', ''https'', ''shttp'', ''snews'', ''prospero'',
     ''rtsp'', ''rtsps'', ''rtspu'', ''rsync'', ''svn'', ''svn+ssh'', ''sftp'', ''nfs'',
     ''git'', ''git+ssh'', ''ws'', ''wss'']"

definition uses_params :: "string list" where
  "uses_params = ['''', ''ftp'', ''hdl'', ''prospero'', ''http'', ''imap'',
     ''https'', ''shttp'', ''rtsp'', ''rtsps'', ''rtspu'', ''sip'', ''sips'', ''mms'',
     ''sftp'', ''tel'']"

definition scheme_chars :: "string" where
  "scheme_chars =
     ''abcdefghijklmnopqrstuvwxyzABCDEFGHIJKLMNOPQRSTUVWXYZ0123456789+-.''"

text \<open>The C0 control characters and the space, which \<open>urlsplit\<close> strips on the left.\<close>

definition c0_control_or_space :: "char \<Rightarrow> bool" where
  "c0_control_or_space c = ((of_char c :: nat) \<le> 32)"

text \<open>Tab, line feed and carriage return are removed wherever they stand.\<close>

definition unsafe_url_byte :: "char \<Rightarrow> bool" where
  "unsafe_url_byte c = (c = CHR 0x09 \<or> c = CHR 0x0D \<or> c = CHR 0x0A)"

definition remove_unsafe :: "string \<Rightarrow> string" where
  "remove_unsafe s = filter (\<lambda>c. \<not> unsafe_url_byte c) s"

record SplitResult =
  scheme :: string
  netloc :: string
  path :: string
  query :: string
  fragment :: string

text \<open>
  The scheme test of \<open>urlsplit\<close>: \<open>i = url.find(':')\<close>, \<open>i > 0\<close>, the first
  character an ASCII letter and every character of \<open>url[:i]\<close> a scheme character.
  Otherwise the default scheme stays.
\<close>

definition split_scheme :: "string \<Rightarrow> string \<Rightarrow> string \<times> string" where
  "split_scheme dflt url =
     (let pre = takeWhile (\<lambda>c. c \<noteq> CHR '':'') url in
      if CHR '':'' \<in> set url \<and> pre \<noteq> [] \<and> is_ascii (hd url) \<and> is_ascii_alpha (hd url)
         \<and> list_all (\<lambda>c. c \<in> set scheme_chars) pre
      then (map lower_char pre, drop (length pre + 1) url)
      else (dflt, url))"

text \<open>\<open>_splitnetloc(url, 2)\<close>: the authority ends at the first of \<open>/ ? #\<close>.\<close>

definition netloc_delim :: "char \<Rightarrow> bool" where
  "netloc_delim c = (c = CHR ''/'' \<or> c = CHR ''?'' \<or> c = CHR ''#'')"

definition splitnetloc :: "string \<Rightarrow> string \<times> string" where
  "splitnetloc url =
     (takeWhile (\<lambda>c. \<not> netloc_delim c) (drop 2 url),
      dropWhile (\<lambda>c. \<not> netloc_delim c) (drop 2 url))"

text \<open>\<open>netloc.partition('[')[2].partition(']')[0]\<close>.\<close>

definition bracketed_host :: "string \<Rightarrow> string" where
  "bracketed_host n =
     takeWhile (\<lambda>c. c \<noteq> CHR '']'') (drop 1 (dropWhile (\<lambda>c. c \<noteq> CHR ''['') n))"

definition checknetloc :: "world \<Rightarrow> string \<Rightarrow> bool" where
  "checknetloc w n = (n = [] \<or> list_all is_ascii n \<or> nfkc_ok w n)"

definition urlsplit :: "world \<Rightarrow> string \<Rightarrow> string \<Rightarrow> error + SplitResult" where
  "urlsplit w url0 scheme0 =
     (let url1 = remove_unsafe (dropWhile c0_control_or_space url0);
          scheme1 = remove_unsafe
                      (rev (dropWhile c0_control_or_space
                         (rev (dropWhile c0_control_or_space scheme0))));
          (scheme2, url2) = split_scheme scheme1 url1;
          has_netloc = (take 2 url2 = ''//'');
          (netloc2, url3) = (if has_netloc then splitnetloc url2 else ([], url2));
          (url4, fragment2) = (if CHR ''#'' \<in> set url3 then split_once CHR ''#'' url3
                               else (url3, []));
          (url5, query2) = (if CHR ''?'' \<in> set url4 then split_once CHR ''?'' url4
                            else (url4, []))
      in if has_netloc \<and> ((CHR ''['' \<in> set netloc2 \<and> CHR '']'' \<notin> set netloc2) \<or>
                           (CHR '']'' \<in> set netloc2 \<and> CHR ''['' \<notin> set netloc2))
         then Inl Invalid_IPv6_URL
         else if has_netloc \<and> CHR ''['' \<in> set netloc2 \<and> CHR '']'' \<in> set netloc2
                 \<and> \<not> bracketed_host_ok w (bracketed_host netloc2)
         then Inl Invalid_bracketed_host
         else if \<not> checknetloc w netloc2 then Inl Invalid_netloc_NFKC
         else Inr \<lparr>scheme = scheme2, netloc = netloc2, path = url5, query = query2,
                   fragment = fragment2\<rparr>)"

definition urlunsplit :: "SplitResult \<Rightarrow> string" where
  "urlunsplit c =
     (let url1 = (if netloc c \<noteq> [] \<or> (scheme c \<noteq> [] \<and> scheme c \<in> set uses_netloc)
                     \<or> take 2 (path c) = ''//''
                  then ''//'' @ netloc c @
                       (if path c \<noteq> [] \<and> take 1 (path c) \<noteq> ''/'' then ''/'' @ path c
                        else path c)
                  else path c);
          url2 = (if scheme c \<noteq> [] then scheme c @ '':'' @ url1 else url1);
          url3 = (if query c \<noteq> [] then url2 @ ''?'' @ query c else url2)
      in if fragment c \<noteq> [] then url3 @ ''#'' @ fragment c else url3)"

text \<open>
  \<open>urlparse\<close> is \<open>urlsplit\<close> followed by \<open>_splitparams\<close> on the path; its result
  is the split result with the parameters beside it.
\<close>

definition splitparams :: "string \<Rightarrow> string \<times> string" where
  "splitparams url =
     (if CHR ''/'' \<in> set url
      then (let after = rev (takeWhile (\<lambda>c. c \<noteq> CHR ''/'') (rev url));
                before = take (length url - length after) url
            in if CHR '';'' \<in> set after
               then (before @ takeWhile (\<lambda>c. c \<noteq> CHR '';'') after,
                     drop 1 (dropWhile (\<lambda>c. c \<noteq> CHR '';'') after))
               else (url, []))
      else split_once CHR '';'' url)"

definition urlparse :: "world \<Rightarrow> string \<Rightarrow> string \<Rightarrow> error + SplitResult \<times> string" where
  "urlparse w url scheme0 =
     (case urlsplit w url scheme0 of
        Inl e \<Rightarrow> Inl e
      | Inr r \<Rightarrow>
          if scheme r \<in> set uses_params \<and> CHR '';'' \<in> set (path r)
          then Inr (r\<lparr>path := fst (splitparams (path r))\<rparr>, snd (splitparams (path r)))
          else Inr (r, []))"

definition urlunparse :: "SplitResult \<times> string \<Rightarrow> string" where
  "urlunparse c =
     (case c of (r, params) \<Rightarrow>
        urlunsplit (if params \<noteq> [] then r\<lparr>path := path r @ '';'' @ params\<rparr> else r))"

text \<open>\<open>segments[1:-1] = filter(None, segments[1:-1])\<close>.\<close>

definition filter_middle :: "string list \<Rightarrow> string list" where
  "filter_middle segs =
     take 1 segs @ filter (\<lambda>s. s \<noteq> []) (butlast (drop 1 segs)) @
     (if drop 1 segs = [] then [] else [last segs])"

text \<open>The loop of \<open>urljoin\<close> that resolves the dot segments.\<close>

fun resolve_dots :: "string list \<Rightarrow> string list \<Rightarrow> string list" where
  "resolve_dots [] resolved = resolved"
| "resolve_dots (seg # segs) resolved =
     (if seg = ''..'' then resolve_dots segs (butlast resolved)
      else if seg = ''.'' then resolve_dots segs resolved
      else resolve_dots segs (resolved @ [seg]))"

definition urljoin :: "world \<Rightarrow> string \<Rightarrow> string \<Rightarrow> error + string" where
  "urljoin w base url =
     (if base = [] then Inr url
      else if url = [] then Inr base
      else
        case urlparse w base [] of
          Inl e \<Rightarrow> Inl e
        | Inr (b, bparams) \<Rightarrow>
           (case urlparse w url (scheme b) of
              Inl e \<Rightarrow> Inl e
            | Inr (u, params) \<Rightarrow>
                if scheme u \<noteq> scheme b \<or> scheme u \<notin> set uses_relative then Inr url
                else if scheme u \<in> set uses_netloc \<and> netloc u \<noteq> []
                then Inr (urlunparse (u, params))
                else
                  (let netloc2 = (if scheme u \<in> set uses_netloc then netloc b else netloc u)
                   in if path u = [] \<and> params = []
                      then Inr (urlunparse
                             (u\<lparr>netloc := netloc2, path := path b,
                                query := (if query u = [] then query b else query u)\<rparr>,
                              bparams))
                      else
                        (let base_parts0 = split_sep CHR ''/'' (path b);
                             base_parts = (if last base_parts0 \<noteq> [] then butlast base_parts0
                                           else base_parts0);
                             segments = (if take 1 (path u) = ''/''
                                         then split_sep CHR ''/'' (path u)
                                         else filter_middle
                                                (base_parts @ split_sep CHR ''/'' (path u)));
                             resolved = resolve_dots segments [];
                             resolved_path = (if last segments = ''.'' \<or> last segments = ''..''
                                              then resolved @ [[]] else resolved);
                             joined = join_sep CHR ''/'' resolved_path
                         in Inr (urlunparse
                                   (u\<lparr>netloc := netloc2,
                                      path := (if joined = [] then ''/'' else joined)\<rparr>,
                                    params))))))"

section \<open>crawl\_links: the URL normalizer and the scope filter\<close>

definition normalize_url :: "world \<Rightarrow> string \<Rightarrow> error + string" where
  "normalize_url w url =
     (case urlsplit w url [] of
        Inl e \<Rightarrow> Inl e
      | Inr parsed \<Rightarrow>
          (let cleaned = parsed\<lparr>fragment := []\<rparr>;
               normalized = urlunsplit cleaned
           in Inr (if endswith normalized ''/'' \<and> length normalized > length (scheme cleaned) + 3
                   then rstrip_slash normalized else normalized)))"

text \<open>The loop over the exclude entries returns at the first entry that matches.\<close>

fun excluded :: "string \<Rightarrow> string list \<Rightarrow> bool" where
  "excluded relative_path [] = False"
| "excluded relative_path (raw # excludes) =
     (let normalized = (if startswith raw ''/'' then raw else ''/'' @ raw)
      in if startswith relative_path normalized then True
         else excluded relative_path excludes)"

definition is_allowed :: "world \<Rightarrow> string \<Rightarrow> string \<Rightarrow> string list \<Rightarrow> error + bool" where
  "is_allowed w url base_prefix excludes =
     (if \<not> startswith url base_prefix then Inr False
      else
        case urlsplit w base_prefix [] of
          Inl e \<Rightarrow> Inl e
        | Inr base_parts \<Rightarrow>
           (case urlsplit w url [] of
              Inl e \<Rightarrow> Inl e
            | Inr url_parts \<Rightarrow>
                (let relative_path = drop (length (path base_parts)) (path url_parts)
                 in Inr (\<not> excluded relative_path excludes))))"

section \<open>crawl\_links: the anchor collector and the crawl engine\<close>

text \<open>
  \<open>AnchorCollector\<close> keeps a set of href values. The set is a list without
  repetitions here; the order in which the crawl loop iterates over it is \<open>set_order\<close>.
\<close>

definition handle_starttag ::
  "string \<Rightarrow> (string \<times> string option) list \<Rightarrow> string list \<Rightarrow> string list" where
  "handle_starttag tag attrs hrefs =
     (if tag \<noteq> ''a'' then hrefs
      else fold (\<lambda>(attr, val) hs.
                   case val of
                     None \<Rightarrow> hs
                   | Some v \<Rightarrow> if attr = ''href'' \<and> v \<noteq> [] then List.insert v hs else hs)
             attrs hrefs)"

definition collect_hrefs :: "world \<Rightarrow> string \<Rightarrow> string list" where
  "collect_hrefs w html =
     set_order w (fold (\<lambda>(tag, attrs) hs. handle_starttag tag attrs hs) (starttags w html) [])"

text \<open>
  The state of \<open>crawl\<close>: its three local collections, what has been written to the
  sink (one element for each \<open>sink.write\<close>), and the number of \<open>time.sleep\<close> calls
  made so far. The progress messages on the diagnostic stream are left out.
\<close>

record crawl_state =
  queue :: "string list"
  visited :: "string set"
  discovered :: "string set"
  sink :: "string list"
  sleeps :: nat

text \<open>The body of the \<open>for href in parser.hrefs()\<close> loop, for the hrefs still to come.\<close>

fun for_hrefs ::
  "world \<Rightarrow> string \<Rightarrow> string list \<Rightarrow> string \<Rightarrow> string list \<Rightarrow> crawl_state
     \<Rightarrow> error option \<times> crawl_state" where
  "for_hrefs w normalized_base excludes current [] s = (None, s)"
| "for_hrefs w normalized_base excludes current (href # hrefs) s =
     (case urljoin w (current @ ''/'') href of
        Inl e \<Rightarrow> (Some e, s)
      | Inr joined \<Rightarrow>
         (case normalize_url w joined of
            Inl e \<Rightarrow> (Some e, s)
          | Inr absolute \<Rightarrow>
              if \<not> (startswith absolute ''http://'' \<or> startswith absolute ''https://'')
              then for_hrefs w normalized_base excludes current hrefs s
              else
                (case is_allowed w absolute normalized_base excludes of
                   Inl e \<Rightarrow> (Some e, s)
                 | Inr allowed \<Rightarrow>
                     if \<not> allowed then for_hrefs w normalized_base excludes current hrefs s
                     else if absolute \<notin> discovered s
                     then for_hrefs w normalized_base excludes current hrefs
                            (s\<lparr>discovered := insert absolute (discovered s),
                               queue := queue s @ [absolute],
                               sink := sink s @ [absolute @ [CHR 0x0A]]\<rparr>)
                     else for_hrefs w normalized_base excludes current hrefs s)))"

text \<open>One pass through the body of \<open>while queue\<close>, for a non-empty queue.\<close>

definition crawl_iteration ::
  "world \<Rightarrow> string \<Rightarrow> string list \<Rightarrow> crawl_state \<Rightarrow> error option \<times> crawl_state" where
  "crawl_iteration w normalized_base excludes s =
     (let current = hd (queue s);
          s1 = s\<lparr>queue := tl (queue s)\<rparr>
      in if current \<in> visited s1 then (None, s1)
         else
           (let s2 = s1\<lparr>visited := insert current (visited s1)\<rparr>;
                html = fetch_html w current
            in if html = [] then (None, s2)
               else
                 (case for_hrefs w normalized_base excludes current (collect_hrefs w html) s2 of
                    (Some e, s3) \<Rightarrow> (Some e, s3)
                  | (None, s3) \<Rightarrow> (None, s3\<lparr>sleeps := Suc (sleeps s3)\<rparr>))))"

datatype outcome = Returned | Raised error

text \<open>
  The \<open>while\<close> loop may run for ever on an endless site, so it takes fuel: one unit for
  each pass. \<open>None\<close> means that the fuel ran out with the queue not yet empty.
\<close>

fun crawl_loop ::
  "world \<Rightarrow> string \<Rightarrow> string list \<Rightarrow> nat \<Rightarrow> crawl_state \<Rightarrow> (outcome \<times> crawl_state) option" where
  "crawl_loop w normalized_base excludes n s =
     (if queue s = [] then Some (Returned, s)
      else case n of
             0 \<Rightarrow> None
           | Suc m \<Rightarrow>
              (case crawl_iteration w normalized_base excludes s of
                 (Some e, s') \<Rightarrow> Some (Raised e, s')
               | (None, s') \<Rightarrow> crawl_loop w normalized_base excludes m s'))"

definition initial_state :: "string list \<Rightarrow> crawl_state" where
  "initial_state sink0 = \<lparr>queue = [], visited = {}, discovered = {}, sink = sink0, sleeps = 0\<rparr>"

text \<open>The statements of \<open>crawl\<close> before the loop: either an error or the seeded state.\<close>

definition crawl_seed ::
  "world \<Rightarrow> string \<Rightarrow> string \<Rightarrow> string list \<Rightarrow> string list \<Rightarrow> error + string \<times> crawl_state" where
  "crawl_seed w start_url base_prefix excludes sink0 =
     (case normalize_url w base_prefix of
        Inl e \<Rightarrow> Inl e
      | Inr normalized_base \<Rightarrow>
         (case urljoin w (normalized_base @ ''/'') start_url of
            Inl e \<Rightarrow> Inl e
          | Inr joined \<Rightarrow>
             (case normalize_url w joined of
                Inl e \<Rightarrow> Inl e
              | Inr normalized_start \<Rightarrow>
                 (case is_allowed w normalized_start normalized_base excludes of
                    Inl e \<Rightarrow> Inl e
                  | Inr allowed \<Rightarrow>
                      if \<not> allowed
                      then Inl (Start_outside_prefix normalized_start normalized_base)
                      else Inr (normalized_base,
                                (initial_state sink0)
                                  \<lparr>queue := [normalized_start],
                                   discovered := {normalized_start},
                                   sink := sink0 @ [normalized_start @ [CHR 0x0A]]\<rparr>)))))"

text \<open>
  \<open>crawl\<close> with fuel for its loop. The result is how it ended and the state at that
  moment; the set it returns is \<open>discovered\<close> of that state.
\<close>

definition crawl ::
  "world \<Rightarrow> nat \<Rightarrow> string \<Rightarrow> string \<Rightarrow> string list \<Rightarrow> string list
     \<Rightarrow> (outcome \<times> crawl_state) option" where
  "crawl w fuel start_url base_prefix excludes sink0 =
     (case crawl_seed w start_url base_prefix excludes sink0 of
        Inl e \<Rightarrow> Some (Raised e, initial_state sink0)
      | Inr (normalized_base, s) \<Rightarrow> crawl_loop w normalized_base excludes fuel s)"

text \<open>
  \<open>main\<close> of the crawl tool after argument parsing: the output file is opened for
  writing (so the sink starts empty), the prefix loses its trailing slashes, and any
  \<open>ValueError\<close> of \<open>crawl\<close> becomes exit code 1. The result is the exit code and the
  content of the output file.
\<close>

definition crawl_main ::
  "world \<Rightarrow> nat \<Rightarrow> string \<Rightarrow> string \<Rightarrow> string list \<Rightarrow> (nat \<times> string list) option" where
  "crawl_main w fuel start_url base_prefix excludes =
     (case crawl w fuel start_url (rstrip_slash base_prefix) excludes [] of
        None \<Rightarrow> None
      | Some (Raised e, s) \<Rightarrow> Some (1, sink s)
      | Some (Returned, s) \<Rightarrow> Some (0, sink s))"

section \<open>Reachable states of the crawl loop\<close>

text \<open>
  \<open>crawl_reaches w nb ex s (r, t)\<close>: starting the \<open>while\<close> loop in state \<open>s\<close>, the
  crawl is in state \<open>t\<close> after some number of passes; \<open>r\<close> is the error that ended the
  last pass, if one did. After an error there is no further pass.
\<close>

inductive crawl_reaches ::
  "world \<Rightarrow> string \<Rightarrow> string list \<Rightarrow> crawl_state \<Rightarrow> error option \<times> crawl_state \<Rightarrow> bool"
  for w nb ex s where
    start: "crawl_reaches w nb ex s (None, s)"
  | pass: "crawl_reaches w nb ex s (None, s1) \<Longrightarrow> queue s1 \<noteq> [] \<Longrightarrow>
           crawl_reaches w nb ex s (crawl_iteration w nb ex s1)"

text \<open>What \<open>sink.write\<close> receives for a URL.\<close>

definition line_of :: "string \<Rightarrow> string" where
  "line_of u = u @ [CHR 0x0A]"

text \<open>
  The invariant of the loop: the queue has no repetition and holds discovered URLs only,
  and the sink holds what it held before the crawl followed by one line for each
  discovered URL, each URL once.
\<close>

definition crawl_inv :: "string list \<Rightarrow> crawl_state \<Rightarrow> bool" where
  "crawl_inv sink0 s =
     (distinct (queue s) \<and> set (queue s) \<subseteq> discovered s \<and>
      (\<exists>us. sink s = sink0 @ map line_of us \<and> distinct us \<and> set us = discovered s))"

definition grows :: "crawl_state \<Rightarrow> crawl_state \<Rightarrow> bool" where
  "grows s t = (discovered s \<subseteq> discovered t \<and> visited s \<subseteq> visited t \<and> prefix (sink s) (sink t))"

section \<open>A small site for the examples\<close>

text \<open>
  The page \<open>http://h/d\<close> links to \<open>a\<close> and \<open>b\<close>; the fetch of \<open>a\<close> fails; \<open>b\<close>
  links to \<open>c\<close> and to \<open>/x\<close>, which is outside the prefix.
\<close>

definition tiny_web :: world where
  "tiny_web =
     \<lparr>fetch_html = (\<lambda>u. if u = ''http://h/d'' then ''R''
                        else if u = ''http://h/d/b'' then ''B'' else []),
      starttags = (\<lambda>html.
         if html = ''R'' then [(''a'', [(''href'', Some ''a'')]), (''a'', [(''href'', Some ''b'')])]
         else if html = ''B'' then [(''a'', [(''href'', Some ''c''), (''class'', None)]),
                                    (''a'', [(''href'', Some ''/x'')]), (''p'', [])]
         else []),
      set_order = rev,
      bracketed_host_ok = (\<lambda>h. False),
      nfkc_ok = (\<lambda>n. False)\<rparr>"

definition tiny_seeded :: crawl_state where
  "tiny_seeded = \<lparr>queue = [''http://h/d''], visited = {}, discovered = {''http://h/d''},
                   sink = [line_of ''http://h/d''], sleeps = 0\<rparr>"

definition tiny_after_root :: crawl_state where
  "tiny_after_root =
     \<lparr>queue = [''http://h/d/a'', ''http://h/d/b''], visited = {''http://h/d''},
      discovered = {''http://h/d'', ''http://h/d/a'', ''http://h/d/b''},
      sink = [line_of ''http://h/d'', line_of ''http://h/d/a'', line_of ''http://h/d/b''],
      sleeps = 1\<rparr>"

text \<open>The small site after the failed fetch of \<open>a\<close>, and when the crawl is over.\<close>

definition tiny_after_a :: crawl_state where
  "tiny_after_a =
     \<lparr>queue = [''http://h/d/b''], visited = {''http://h/d'', ''http://h/d/a''},
      discovered = {''http://h/d'', ''http://h/d/a'', ''http://h/d/b''},
      sink = [line_of ''http://h/d'', line_of ''http://h/d/a'', line_of ''http://h/d/b''],
      sleeps = 1\<rparr>"

definition tiny_done :: crawl_state where
  "tiny_done =
     \<lparr>queue = [], visited = {''http://h/d'', ''http://h/d/a'', ''http://h/d/b'', ''http://h/d/b/c''},
      discovered = {''http://h/d'', ''http://h/d/a'', ''http://h/d/b'', ''http://h/d/b/c''},
      sink = [line_of ''http://h/d'', line_of ''http://h/d/a'', line_of ''http://h/d/b'',
              line_of ''http://h/d/b/c''],
      sleeps = 2\<rparr>"

text \<open>The errors that come from parsing a URL, as opposed to the scope violation.\<close>

definition is_parse_error :: "error \<Rightarrow> bool" where
  "is_parse_error e = (case e of Start_outside_prefix a b \<Rightarrow> False | _ \<Rightarrow> True)"

text \<open>
  A site whose root page carries a link with a malformed authority, and the state of
  its crawl after the seed.
\<close>

definition bad_href_web :: world where
  "bad_href_web =
     \<lparr>fetch_html = (\<lambda>u. if u = ''http://h/d'' then ''R'' else []),
      starttags = (\<lambda>html. if html = ''R'' then [(''a'', [(''href'', Some ''http://[x'')])] else []),
      set_order = rev,
      bracketed_host_ok = (\<lambda>h. False),
      nfkc_ok = (\<lambda>n. False)\<rparr>"

section \<open>combine\_texts\<close>

text \<open>
  A \<open>pathlib\<close> path is the list of its parts. \<open>Path\<close> equality and order compare the
  parts, and so does the model: lists are ordered lexicographically, strings by code
  point. \<open>str\<close> of a relative path joins its parts with a slash.
\<close>

type_synonym path = "string list"

text \<open>
  The file system, as far as the tool looks at it: whether a path exists, the paths
  below a directory that \<open>rglob("*.txt")\<close> yields (relative to the directory, in the
  order of the operating system), and what \<open>read_text\<close> returns for a path, \<open>None\<close>
  where it raises.
\<close>

record filesystem =
  fs_exists :: "path \<Rightarrow> bool"
  rglob_txt :: "path \<Rightarrow> path list"
  read_text :: "path \<Rightarrow> string option"

datatype combine_error = Usage_error | Read_error path

definition gather_text_files :: "filesystem \<Rightarrow> path \<Rightarrow> path list" where
  "gather_text_files fs root = sort (map (\<lambda>rel. root @ rel) (rglob_txt fs root))"

text \<open>\<open>text_file.relative_to(root)\<close> for a path below \<open>root\<close>.\<close>

definition relative_to :: "path \<Rightarrow> path \<Rightarrow> path" where
  "relative_to p root = drop (length root) p"

text \<open>
  The loop of \<open>main\<close> over the gathered files: what has been written to the
  destination so far, and the count.
\<close>

fun combine_loop ::
  "filesystem \<Rightarrow> path \<Rightarrow> path \<Rightarrow> path list \<Rightarrow> string \<times> nat \<Rightarrow> combine_error + string \<times> nat" where
  "combine_loop fs root output_path [] acc = Inr acc"
| "combine_loop fs root output_path (text_file # files) acc =
     (if text_file = output_path then combine_loop fs root output_path files acc
      else case read_text fs text_file of
             None \<Rightarrow> Inl (Read_error text_file)
           | Some content \<Rightarrow>
               combine_loop fs root output_path files
                 (fst acc @ ''# Source: '' @ join_sep CHR ''/'' (relative_to text_file root)
                    @ [CHR 0x0A] @ content @ [CHR 0x0A, CHR 0x0A],
                  Suc (snd acc)))"

text \<open>
  \<open>main\<close> after argument parsing: the content of the output file and the count of
  the summary line.
\<close>

definition combine_main :: "filesystem \<Rightarrow> path \<Rightarrow> path \<Rightarrow> combine_error + string \<times> nat" where
  "combine_main fs root output_path =
     (if \<not> fs_exists fs root then Inl Usage_error
      else combine_loop fs root output_path (gather_text_files fs root) ([], 0))"

text \<open>The example of the specification, with the output file inside the input directory.\<close>

definition pages_fs :: filesystem where
  "pages_fs =
     \<lparr>fs_exists = (\<lambda>p. p = [''pages'']),
      rglob_txt = (\<lambda>p. if p = [''pages'']
                        then [[''sub'', ''b.txt''], [''all.txt''], [''a.txt'']] else []),
      read_text = (\<lambda>p. if p = [''pages'', ''a.txt''] then Some ''X''
                        else if p = [''pages'', ''sub'', ''b.txt''] then Some ''Y''
                        else if p = [''pages'', ''all.txt''] then Some [] else None)\<rparr>"

text \<open>The scope filter in the words of the specification, for given paths.\<close>

definition in_scope_spec :: "string \<Rightarrow> string \<Rightarrow> string \<Rightarrow> string \<Rightarrow> string list \<Rightarrow> bool" where
  "in_scope_spec url base_prefix url_path base_path excludes =
     (prefix base_prefix url \<and>
      \<not> (\<exists>raw \<in> set excludes.
           prefix (if prefix ''/'' raw then raw else ''/'' @ raw)
                  (drop (length base_path) url_path)))"

text \<open>
  The three checks of \<open>urlsplit\<close> on the authority, taken together: the brackets
  are paired, a bracketed host is accepted, and the NFKC check passes.
\<close>

definition netloc_ok :: "world \<Rightarrow> string \<Rightarrow> bool" where
  "netloc_ok w n =
     (\<not> ((CHR ''['' \<in> set n \<and> CHR '']'' \<notin> set n) \<or> (CHR '']'' \<in> set n \<and> CHR ''['' \<notin> set n)) \<and>
      (CHR ''['' \<in> set n \<and> CHR '']'' \<in> set n \<longrightarrow> bracketed_host_ok w (bracketed_host n)) \<and>
      checknetloc w n)"

text \<open>What \<open>urlsplit\<close> does with the text after the authority.\<close>

definition split_rest :: "string \<Rightarrow> string \<times> string \<times> string" where
  "split_rest url3 =
     (let (url4, fragment2) = (if CHR ''#'' \<in> set url3 then split_once CHR ''#'' url3
                               else (url3, []));
          (url5, query2) = (if CHR ''?'' \<in> set url4 then split_once CHR ''?'' url4
                            else (url4, []))
      in (url5, query2, fragment2))"

text \<open>The URL as \<open>urlsplit\<close> sees it after its two cleaning steps.\<close>

definition clean_url :: "string \<Rightarrow> string" where
  "clean_url u = remove_unsafe (dropWhile c0_control_or_space u)"

text \<open>
  What \<open>split_scheme\<close> accepts as a scheme: nothing, or the lower-cased scheme
  characters before the first colon, the first of them an ASCII letter.
\<close>

definition scheme_ok :: "string \<Rightarrow> bool" where
  "scheme_ok sc =
     (sc = [] \<or>
      (\<exists>pre. sc = map lower_char pre \<and> pre \<noteq> [] \<and> is_ascii (hd pre) \<and> is_ascii_alpha (hd pre) \<and>
             list_all (\<lambda>c. c \<in> set scheme_chars) pre))"

text \<open>The URL that \<open>urlunsplit\<close> builds from parts with an authority and no fragment.\<close>

definition auth_url :: "string \<Rightarrow> string \<Rightarrow> string \<Rightarrow> string \<Rightarrow> string" where
  "auth_url sc nl p q =
     (if sc \<noteq> [] then sc @ '':'' else []) @ ''//'' @ nl @ p @ (if q \<noteq> [] then ''?'' @ q else [])"

text \<open>
  The history of the frontier. \<open>us\<close> is the list of the URLs enqueued so far, in the
  order of their enqueueing; \<open>k\<close> of them have been dequeued. The sink holds their
  lines in the same order, the queue is what is left of the list, and the visited URLs
  are the dequeued ones.
\<close>

definition frontier_history :: "string list \<Rightarrow> crawl_state \<Rightarrow> string list \<Rightarrow> nat \<Rightarrow> bool" where
  "frontier_history sink0 s us k =
     (sink s = sink0 @ map line_of us \<and> distinct us \<and> set us = discovered s \<and>
      queue s = drop k us \<and> visited s = set (take k us))"

text \<open>
  \<open>enqueued s t new\<close>: from \<open>s\<close> to \<open>t\<close> the URLs \<open>new\<close> have been appended to the
  queue and their lines to the sink, they have joined the discovered set, none of them
  was discovered before and none occurs twice.
\<close>

definition enqueued :: "crawl_state \<Rightarrow> crawl_state \<Rightarrow> string list \<Rightarrow> bool" where
  "enqueued s t new =
     (queue t = queue s @ new \<and> sink t = sink s @ map line_of new \<and>
      discovered t = discovered s \<union> set new \<and> distinct new \<and>
      set new \<inter> discovered s = {} \<and> visited t = visited s)"

text \<open>
  The example of the specification below a directory two levels deep, with the output
  file inside the input directory and named through it.
\<close>

definition nested_fs :: filesystem where
  "nested_fs =
     \<lparr>fs_exists = (\<lambda>p. p = [''data'', ''pages'']),
      rglob_txt = (\<lambda>p. if p = [''data'', ''pages'']
                        then [[''sub'', ''b.txt''], [''all.txt''], [''a.txt'']] else []),
      read_text = (\<lambda>p. if p = [''data'', ''pages'', ''a.txt''] then Some ''X''
                        else if p = [''data'', ''pages'', ''sub'', ''b.txt''] then Some ''Y''
                        else if p = [''data'', ''pages'', ''all.txt''] then Some [] else None)\<rparr>"

text \<open>
  \<open>Path.absolute()\<close>: a path that starts at the file system root stays, any other is
  taken from the working directory. Two paths with the same absolute path name the same
  file, and a file lies inside a directory when the directory's absolute path is a
  prefix of the file's.
\<close>

definition absolute :: "path \<Rightarrow> path \<Rightarrow> path" where
  "absolute cwd p = (if take 1 p = [''/''] then p else cwd @ p)"

definition lies_inside :: "path \<Rightarrow> path \<Rightarrow> path \<Rightarrow> bool" where
  "lies_inside cwd file dir = (prefix (absolute cwd dir) (absolute cwd file) \<and>
                               absolute cwd dir \<noteq> absolute cwd file)"

text \<open>
  The link graph of a site. \<open>link_target w nb ex cur href\<close> is what the body of the
  loop over the hrefs computes for one href of the page \<open>cur\<close> before it looks at the
  discovered set: an error, nothing (the href is skipped), or the canonical URL that the
  href leads to. There is an edge from \<open>u\<close> to \<open>v\<close> when the fetch of \<open>u\<close>
  gives a page and one of its hrefs leads to \<open>v\<close>.
\<close>

definition link_target ::
  "world \<Rightarrow> string \<Rightarrow> string list \<Rightarrow> string \<Rightarrow> string \<Rightarrow> error + string option" where
  "link_target w normalized_base excludes current href =
     (case urljoin w (current @ ''/'') href of
        Inl e \<Rightarrow> Inl e
      | Inr joined \<Rightarrow>
         (case normalize_url w joined of
            Inl e \<Rightarrow> Inl e
          | Inr target \<Rightarrow>
              if \<not> (startswith target ''http://'' \<or> startswith target ''https://'')
              then Inr None
              else
                (case is_allowed w target normalized_base excludes of
                   Inl e \<Rightarrow> Inl e
                 | Inr allowed \<Rightarrow> if allowed then Inr (Some target) else Inr None)))"

definition edge :: "world \<Rightarrow> string \<Rightarrow> string list \<Rightarrow> string \<Rightarrow> string \<Rightarrow> bool" where
  "edge w nb ex u v =
     (fetch_html w u \<noteq> [] \<and>
      (\<exists>href \<in> set (collect_hrefs w (fetch_html w u)). link_target w nb ex u href = Inr (Some v)))"

text \<open>
  \<open>walk w nb ex seed n v\<close>: \<open>n\<close> links lead from the seed to \<open>v\<close>. The depth of a
  URL is the least such \<open>n\<close>.
\<close>

inductive walk :: "world \<Rightarrow> string \<Rightarrow> string list \<Rightarrow> string \<Rightarrow> nat \<Rightarrow> string \<Rightarrow> bool"
  for w nb ex seed where
    start: "walk w nb ex seed 0 seed"
  | step: "walk w nb ex seed n u \<Longrightarrow> edge w nb ex u v \<Longrightarrow> walk w nb ex seed (Suc n) v"

definition depth_is :: "world \<Rightarrow> string \<Rightarrow> string list \<Rightarrow> string \<Rightarrow> string \<Rightarrow> nat \<Rightarrow> bool" where
  "depth_is w nb ex seed v n = (walk w nb ex seed n v \<and> (\<forall>m. m < n \<longrightarrow> \<not> walk w nb ex seed m v))"

text \<open>The depth as a function, for the URLs that some walk reaches.\<close>

definition depth_of :: "world \<Rightarrow> string \<Rightarrow> string list \<Rightarrow> string \<Rightarrow> string \<Rightarrow> nat" where
  "depth_of w nb ex seed v = (LEAST n. walk w nb ex seed n v)"

definition reached :: "world \<Rightarrow> string \<Rightarrow> string list \<Rightarrow> string \<Rightarrow> string \<Rightarrow> bool" where
  "reached w nb ex seed v = (\<exists>n. walk w nb ex seed n v)"

text \<open>
  The order of a breadth-first search on the history \<open>us\<close> of which \<open>k\<close> URLs are
  dequeued: the depths do not decrease along the history, the links of the dequeued URLs
  are all in it, the last URL is at most one level below the next to be dequeued, and
  every URL that is not deeper than the next to be dequeued is in it.
\<close>

definition bfs_order ::
  "world \<Rightarrow> string \<Rightarrow> string list \<Rightarrow> string \<Rightarrow> string list \<Rightarrow> nat \<Rightarrow> bool" where
  "bfs_order w nb ex seed us k =
     (distinct us \<and> k \<le> length us \<and>
      (\<forall>v \<in> set us. reached w nb ex seed v) \<and>
      (\<forall>i j. i \<le> j \<and> j < length us \<longrightarrow>
         depth_of w nb ex seed (us ! i) \<le> depth_of w nb ex seed (us ! j)) \<and>
      (\<forall>i v. i < k \<and> edge w nb ex (us ! i) v \<longrightarrow> v \<in> set us) \<and>
      (k < length us \<longrightarrow>
         depth_of w nb ex seed (last us) \<le> Suc (depth_of w nb ex seed (us ! k))) \<and>
      (k < length us \<longrightarrow>
         (\<forall>v. reached w nb ex seed v \<and>
              depth_of w nb ex seed v \<le> depth_of w nb ex seed (us ! k) \<longrightarrow> v \<in> set us)))"

text \<open>
  A site with four levels: the root links to \<open>a\<close> and \<open>b\<close>, \<open>a\<close> to \<open>a/c\<close>,
  \<open>b\<close> to \<open>b/e\<close> and \<open>b/e\<close> to \<open>b/e/g\<close>. The state is that of its crawl when
  the queue is empty.
\<close>

definition layered_web :: world where
  "layered_web =
     \<lparr>fetch_html = (\<lambda>u. if u = ''http://h/d'' then ''R''
                        else if u = ''http://h/d/a'' then ''A''
                        else if u = ''http://h/d/b'' then ''B''
                        else if u = ''http://h/d/b/e'' then ''E'' else []),
      starttags = (\<lambda>html.
         if html = ''R'' then [(''a'', [(''href'', Some ''a'')]), (''a'', [(''href'', Some ''b'')])]
         else if html = ''A'' then [(''a'', [(''href'', Some ''c'')])]
         else if html = ''B'' then [(''a'', [(''href'', Some ''e'')])]
         else if html = ''E'' then [(''a'', [(''href'', Some ''g'')])]
         else []),
      set_order = rev,
      bracketed_host_ok = (\<lambda>h. False),
      nfkc_ok = (\<lambda>n. False)\<rparr>"

text \<open>
  The URLs of the site in the order of a breadth-first search, and the state of the
  crawl in which the first \<open>n\<close> of them are enqueued, the first \<open>k\<close> dequeued and
  \<open>d\<close> delays made.
\<close>

definition layered_urls :: "string list" where
  "layered_urls = [''http://h/d'', ''http://h/d/a'', ''http://h/d/b'', ''http://h/d/a/c'',
                   ''http://h/d/b/e'', ''http://h/d/b/e/g'']"

definition layered_state :: "nat \<Rightarrow> nat \<Rightarrow> nat \<Rightarrow> crawl_state" where
  "layered_state k n d =
     \<lparr>queue = drop k (take n layered_urls), visited = set (take k layered_urls),
      discovered = set (take n layered_urls), sink = map line_of (take n layered_urls),
      sleeps = d\<rparr>"

section \<open>Properties\<close>

subsection \<open>The loop keeps its invariant\<close>

lemma for_hrefs_preserves:
  assumes step: "\<And>t a. P t \<Longrightarrow> a \<notin> discovered t \<Longrightarrow>
     P (t\<lparr>discovered := insert a (discovered t), queue := queue t @ [a],
          sink := sink t @ [a @ [CHR 0x0A]]\<rparr>)"
    and init: "P s"
  shows "P (snd (for_hrefs w nb ex cur hrefs s))"
  using init
proof (induction hrefs arbitrary: s)
  case Nil
  then show ?case by simp
next
  case (Cons h hs)
  show ?case
    using Cons.prems Cons.IH step
    by (auto split: sum.splits)
qed

lemma crawl_inv_enqueue:
  "crawl_inv sink0 t \<Longrightarrow> a \<notin> discovered t \<Longrightarrow>
   crawl_inv sink0 (t\<lparr>discovered := insert a (discovered t), queue := queue t @ [a],
          sink := sink t @ [a @ [CHR 0x0A]]\<rparr>)"
  unfolding crawl_inv_def
  apply (elim conjE exE)
  apply (intro conjI)
    apply auto[2]
  subgoal for us
    by (rule exI[of _ "us @ [a]"]) (simp add: line_of_def)
  done

lemma crawl_iteration_cases:
  obtains (seen) "crawl_iteration w nb ex s = (None, s\<lparr>queue := tl (queue s)\<rparr>)"
      "hd (queue s) \<in> visited s"
  | (failed) "crawl_iteration w nb ex s =
       (None, s\<lparr>queue := tl (queue s), visited := insert (hd (queue s)) (visited s)\<rparr>)"
      "hd (queue s) \<notin> visited s" "fetch_html w (hd (queue s)) = []"
  | (raised) e s3 where "crawl_iteration w nb ex s = (Some e, s3)"
      "hd (queue s) \<notin> visited s" "fetch_html w (hd (queue s)) \<noteq> []"
      "for_hrefs w nb ex (hd (queue s)) (collect_hrefs w (fetch_html w (hd (queue s))))
         (s\<lparr>queue := tl (queue s), visited := insert (hd (queue s)) (visited s)\<rparr>) = (Some e, s3)"
  | (parsed) s3 where "crawl_iteration w nb ex s = (None, s3\<lparr>sleeps := Suc (sleeps s3)\<rparr>)"
      "hd (queue s) \<notin> visited s" "fetch_html w (hd (queue s)) \<noteq> []"
      "for_hrefs w nb ex (hd (queue s)) (collect_hrefs w (fetch_html w (hd (queue s))))
         (s\<lparr>queue := tl (queue s), visited := insert (hd (queue s)) (visited s)\<rparr>) = (None, s3)"
proof (cases "hd (queue s) \<in> visited s")
  case True
  then show ?thesis using seen by (simp add: crawl_iteration_def)
next
  case nv: False
  show ?thesis
  proof (cases "fetch_html w (hd (queue s)) = []")
    case True
    then show ?thesis using nv failed by (simp add: crawl_iteration_def)
  next
    case ok: False
    obtain r s3 where f: "for_hrefs w nb ex (hd (queue s))
        (collect_hrefs w (fetch_html w (hd (queue s))))
        (s\<lparr>queue := tl (queue s), visited := insert (hd (queue s)) (visited s)\<rparr>) = (r, s3)"
      by (cases "for_hrefs w nb ex (hd (queue s))
        (collect_hrefs w (fetch_html w (hd (queue s))))
        (s\<lparr>queue := tl (queue s), visited := insert (hd (queue s)) (visited s)\<rparr>)") auto
    show ?thesis
    proof (cases r)
      case None
      then show ?thesis using nv ok f parsed[of s3] by (simp add: crawl_iteration_def)
    next
      case (Some e)
      then show ?thesis using nv ok f raised[of e s3] by (simp add: crawl_iteration_def)
    qed
  qed
qed

lemma crawl_inv_iteration:
  assumes "crawl_inv sink0 s"
  shows "crawl_inv sink0 (snd (crawl_iteration w nb ex s))"
proof -
  let ?s2 = "s\<lparr>queue := tl (queue s), visited := insert (hd (queue s)) (visited s)\<rparr>"
  have tl: "crawl_inv sink0 (s\<lparr>queue := tl (queue s)\<rparr>)"
    using assms unfolding crawl_inv_def
    by (cases "queue s") auto
  have s2: "crawl_inv sink0 ?s2"
    using tl by (simp add: crawl_inv_def)
  have s3: "crawl_inv sink0 (snd (for_hrefs w nb ex c hs ?s2))" for c hs
    by (rule for_hrefs_preserves[where P="crawl_inv sink0", OF crawl_inv_enqueue s2])
  show ?thesis
  proof (cases rule: crawl_iteration_cases[of w nb ex s])
    case seen
    then show ?thesis using tl by simp
  next
    case failed
    then show ?thesis using s2 by simp
  next
    case (raised e s3)
    then show ?thesis using s3[of "hd (queue s)" "collect_hrefs w (fetch_html w (hd (queue s)))"] by simp
  next
    case (parsed s3)
    then show ?thesis using s3[of "hd (queue s)" "collect_hrefs w (fetch_html w (hd (queue s)))"]
      by (simp add: crawl_inv_def)
  qed
qed

lemma crawl_inv_reaches:
  "crawl_reaches w nb ex s rs \<Longrightarrow> crawl_inv sink0 s \<Longrightarrow> crawl_inv sink0 (snd rs)"
proof (induction rule: crawl_reaches.induct)
  case start
  then show ?case by simp
next
  case (pass s1)
  then show ?case using crawl_inv_iteration[of sink0 s1 w nb ex] by simp
qed

lemma crawl_inv_seed:
  "crawl_seed w start base ex sink0 = Inr (nb, s0) \<Longrightarrow> crawl_inv sink0 s0"
  unfolding crawl_seed_def crawl_inv_def initial_state_def
  apply (auto split: sum.splits if_splits)
  apply (rule_tac x="[x2b]" in exI)
  apply (simp add: line_of_def)
  done

lemma grows_iteration: "grows s (snd (crawl_iteration w nb ex s))"
proof -
  let ?s2 = "s\<lparr>queue := tl (queue s), visited := insert (hd (queue s)) (visited s)\<rparr>"
  have s2: "grows s ?s2" by (auto simp: grows_def)
  have s3: "grows s (snd (for_hrefs w nb ex c hs ?s2))" for c hs
    by (rule for_hrefs_preserves[where P="grows s", OF _ s2]) (auto simp: grows_def)
  show ?thesis
  proof (cases rule: crawl_iteration_cases[of w nb ex s])
    case seen
    then show ?thesis by (simp add: grows_def)
  next
    case failed
    then show ?thesis using s2 by simp
  next
    case (raised e s3)
    then show ?thesis using s3[of "hd (queue s)" "collect_hrefs w (fetch_html w (hd (queue s)))"] by simp
  next
    case (parsed s3)
    then show ?thesis using s3[of "hd (queue s)" "collect_hrefs w (fetch_html w (hd (queue s)))"]
      by (simp add: grows_def)
  qed
qed

lemma grows_reaches: "crawl_reaches w nb ex s rs \<Longrightarrow> grows s (snd rs)"
proof (induction rule: crawl_reaches.induct)
  case start
  then show ?case by (simp add: grows_def)
next
  case (pass s1)
  then show ?case using grows_iteration[of s1 w nb ex] by (auto simp: grows_def)
qed

lemma crawl_reaches_trans:
  "crawl_reaches w nb ex s1 rs \<Longrightarrow> crawl_reaches w nb ex s0 (None, s1) \<Longrightarrow>
   crawl_reaches w nb ex s0 rs"
  by (induction rule: crawl_reaches.induct) (auto intro: crawl_reaches.intros)

lemma for_hrefs_single:
  "snd (for_hrefs w nb ex cur [href] s) = s \<or>
   (\<exists>a. a \<notin> discovered s \<and>
      snd (for_hrefs w nb ex cur [href] s) =
        s\<lparr>discovered := insert a (discovered s), queue := queue s @ [a],
          sink := sink s @ [line_of a]\<rparr>)"
  by (auto simp: line_of_def split: sum.splits)

lemma tiny_seed: "crawl_seed tiny_web ''http://h/d/'' ''http://h/d'' [] [] = Inr (''http://h/d'', tiny_seeded)"
  by code_simp

lemma tiny_pass1: "crawl_iteration tiny_web ''http://h/d'' [] tiny_seeded = (None, tiny_after_root)"
  by code_simp

subsection \<open>The normalizer\<close>

text \<open>
  C5. The root of an authority does not keep its slash: the guard compares the length
  with that of the scheme plus three, which every URL with an authority exceeds, so
  \<open>https://example.com/\<close> becomes \<open>https://example.com\<close>.
\<close>

theorem normalize_url_drops_root_slash:
  "normalize_url w ''https://example.com/'' = Inr ''https://example.com''"
  by code_simp

subsection \<open>Failed fetches and the delay\<close>

lemma tiny_pass2: "crawl_iteration tiny_web ''http://h/d'' [] tiny_after_root = (None, tiny_after_a)"
  by code_simp

lemma tiny_rest: "crawl_loop tiny_web ''http://h/d'' [] 5 tiny_after_a = Some (Returned, tiny_done)"
  by code_simp

lemma tiny_crawl: "crawl tiny_web 5 ''http://h/d/'' ''http://h/d'' [] [] = Some (Returned, tiny_done)"
  by code_simp

lemma for_hrefs_sleeps: "sleeps (snd (for_hrefs w nb ex cur hrefs s)) = sleeps s"
  by (rule for_hrefs_preserves[where P="\<lambda>t. sleeps t = sleeps s"]) simp_all

lemma for_hrefs_visited: "visited (snd (for_hrefs w nb ex cur hrefs s)) = visited s"
  by (rule for_hrefs_preserves[where P="\<lambda>t. visited t = visited s"]) simp_all

text \<open>
  C6, as the code has it. Every pass that dequeues a URL leaves it in the visited set.
  The delay is executed at the end of exactly those passes that fetched a non-empty
  body for a URL not yet visited and went through all of its links; a pass whose fetch
  returns the empty string goes on to the next URL without the delay.
\<close>

theorem delay_only_after_a_parsed_page:
  assumes "queue s \<noteq> []" and "crawl_iteration w nb ex s = (r, t)"
  shows "hd (queue s) \<in> visited t \<and>
         sleeps t = (if hd (queue s) \<notin> visited s \<and> fetch_html w (hd (queue s)) \<noteq> [] \<and> r = None
                     then Suc (sleeps s) else sleeps s)"
proof (cases rule: crawl_iteration_cases[of w nb ex s])
  case seen
  then show ?thesis using assms by auto
next
  case failed
  then show ?thesis using assms by auto
next
  case (raised e s3)
  then show ?thesis
    using assms for_hrefs_sleeps[of w nb ex "hd (queue s)"
        "collect_hrefs w (fetch_html w (hd (queue s)))"
        "s\<lparr>queue := tl (queue s), visited := insert (hd (queue s)) (visited s)\<rparr>"]
      for_hrefs_visited[of w nb ex "hd (queue s)"
        "collect_hrefs w (fetch_html w (hd (queue s)))"
        "s\<lparr>queue := tl (queue s), visited := insert (hd (queue s)) (visited s)\<rparr>"]
    by auto
next
  case (parsed s3)
  then show ?thesis
    using assms for_hrefs_sleeps[of w nb ex "hd (queue s)"
        "collect_hrefs w (fetch_html w (hd (queue s)))"
        "s\<lparr>queue := tl (queue s), visited := insert (hd (queue s)) (visited s)\<rparr>"]
      for_hrefs_visited[of w nb ex "hd (queue s)"
        "collect_hrefs w (fetch_html w (hd (queue s)))"
        "s\<lparr>queue := tl (queue s), visited := insert (hd (queue s)) (visited s)\<rparr>"]
    by auto
qed

text \<open>On the small site the pass over the root page counts one delay.\<close>

theorem delay_only_after_a_parsed_page_witness:
  "queue tiny_seeded \<noteq> [] \<and>
   crawl_iteration tiny_web ''http://h/d'' [] tiny_seeded = (None, tiny_after_root) \<and>
   hd (queue tiny_seeded) \<in> visited tiny_after_root \<and>
   sleeps tiny_after_root = Suc (sleeps tiny_seeded)"
proof -
  have q: "queue tiny_seeded \<noteq> []" by (simp add: tiny_seeded_def)
  have f: "fetch_html tiny_web (hd (queue tiny_seeded)) \<noteq> []" by code_simp
  have v: "hd (queue tiny_seeded) \<notin> visited tiny_seeded" by (simp add: tiny_seeded_def)
  show ?thesis
    using delay_only_after_a_parsed_page[OF q tiny_pass1] q f v tiny_pass1 by simp
qed

text \<open>
  C6 as stated fails: the pass over \<open>a\<close>, whose fetch fails, marks it visited and
  executes no delay.
\<close>

theorem delay_skipped_after_failed_fetch:
  "fetch_html tiny_web ''http://h/d/a'' = [] \<and>
   hd (queue tiny_after_root) = ''http://h/d/a'' \<and>
   ''http://h/d/a'' \<notin> visited tiny_after_root \<and>
   ''http://h/d/a'' \<in> visited (snd (crawl_iteration tiny_web ''http://h/d'' [] tiny_after_root)) \<and>
   sleeps (snd (crawl_iteration tiny_web ''http://h/d'' [] tiny_after_root)) =
     sleeps tiny_after_root"
  by code_simp

text \<open>
  C2. A pass whose fetch returns the empty string raises nothing, marks the URL
  visited, removes it from the queue and changes nothing else (no URL is discovered,
  nothing is written), and the loop goes on with the rest of the queue.
\<close>

theorem fetch_failure_is_not_fatal:
  assumes "queue s = u # rest" and "fetch_html w u = []"
  shows "crawl_iteration w nb ex s =
           (None, s\<lparr>queue := rest,
                    visited := (if u \<in> visited s then visited s else insert u (visited s))\<rparr>) \<and>
         crawl_loop w nb ex (Suc n) s =
           crawl_loop w nb ex n
             (s\<lparr>queue := rest,
                visited := (if u \<in> visited s then visited s else insert u (visited s))\<rparr>)"
proof -
  have it: "crawl_iteration w nb ex s =
           (None, s\<lparr>queue := rest,
                    visited := (if u \<in> visited s then visited s else insert u (visited s))\<rparr>)"
    using assms by (simp add: crawl_iteration_def)
  show ?thesis using it assms(1) by simp
qed

text \<open>
  On the small site the root links to \<open>a\<close> and \<open>b\<close> and the fetch of \<open>a\<close>
  fails: \<open>b\<close> is still visited and its child \<open>c\<close> is discovered.
\<close>

theorem fetch_failure_is_not_fatal_witness:
  "queue tiny_after_root = ''http://h/d/a'' # [''http://h/d/b''] \<and>
   fetch_html tiny_web ''http://h/d/a'' = [] \<and>
   crawl_iteration tiny_web ''http://h/d'' [] tiny_after_root = (None, tiny_after_a) \<and>
   crawl_loop tiny_web ''http://h/d'' [] (Suc 5) tiny_after_root = Some (Returned, tiny_done) \<and>
   ''http://h/d/b'' \<in> visited tiny_done \<and> ''http://h/d/b/c'' \<in> discovered tiny_done \<and>
   crawl tiny_web 5 ''http://h/d/'' ''http://h/d'' [] [] = Some (Returned, tiny_done)"
proof -
  have q: "queue tiny_after_root = ''http://h/d/a'' # [''http://h/d/b'']"
    by (simp add: tiny_after_root_def)
  have f: "fetch_html tiny_web ''http://h/d/a'' = []" by code_simp
  have e: "tiny_after_root\<lparr>queue := [''http://h/d/b''],
             visited := (if ''http://h/d/a'' \<in> visited tiny_after_root then visited tiny_after_root
                         else insert ''http://h/d/a'' (visited tiny_after_root))\<rparr> = tiny_after_a"
    by (simp add: tiny_after_root_def tiny_after_a_def insert_commute)
  have d: "''http://h/d/b'' \<in> visited tiny_done \<and> ''http://h/d/b/c'' \<in> discovered tiny_done"
    by (simp add: tiny_done_def)
  show ?thesis
    using fetch_failure_is_not_fatal[OF q f, of "''http://h/d''" "[]" 5] q f e d tiny_rest tiny_crawl
    by simp
qed

subsection \<open>The scope violation\<close>

lemma urlsplit_error: "urlsplit w u d = Inl e \<Longrightarrow> is_parse_error e"
  by (auto simp: urlsplit_def Let_def is_parse_error_def split: prod.splits if_splits)

lemma urlparse_error: "urlparse w u d = Inl e \<Longrightarrow> is_parse_error e"
  by (auto simp: urlparse_def split: sum.splits if_splits dest: urlsplit_error)

lemma urljoin_error: "urljoin w b u = Inl e \<Longrightarrow> is_parse_error e"
  by (auto simp: urljoin_def Let_def split: sum.splits if_splits prod.splits dest: urlparse_error)

lemma normalize_url_error: "normalize_url w u = Inl e \<Longrightarrow> is_parse_error e"
  by (auto simp: normalize_url_def Let_def split: sum.splits dest: urlsplit_error)

lemma is_allowed_error: "is_allowed w u b ex = Inl e \<Longrightarrow> is_parse_error e"
  by (auto simp: is_allowed_def Let_def split: sum.splits if_splits dest: urlsplit_error)

lemma for_hrefs_error:
  "for_hrefs w nb ex cur hrefs s = (Some e, t) \<Longrightarrow> is_parse_error e"
proof (induction hrefs arbitrary: s)
  case Nil
  then show ?case by simp
next
  case (Cons h hs)
  then show ?case
    by (auto split: sum.splits if_splits
        dest: urljoin_error normalize_url_error is_allowed_error)
qed

lemma crawl_iteration_error:
  "crawl_iteration w nb ex s = (Some e, t) \<Longrightarrow> is_parse_error e"
  by (cases rule: crawl_iteration_cases[of w nb ex s]) (auto dest: for_hrefs_error)

lemma crawl_loop_error:
  "crawl_loop w nb ex n s = Some (Raised e, t) \<Longrightarrow> is_parse_error e"
proof (induction n arbitrary: s)
  case 0
  then show ?case by (simp split: if_splits)
next
  case (Suc n)
  show ?case
  proof (cases "queue s = []")
    case True
    then show ?thesis using Suc.prems by simp
  next
    case False
    obtain r s' where it: "crawl_iteration w nb ex s = (r, s')"
      by (cases "crawl_iteration w nb ex s") auto
    show ?thesis
    proof (cases r)
      case None
      then show ?thesis using Suc.prems False it Suc.IH[of s'] by simp
    next
      case (Some e')
      then show ?thesis using Suc.prems False it crawl_iteration_error[of w nb ex s e' s'] by simp
    qed
  qed
qed

text \<open>
  C3, as the code has it. When the normalized start URL is rejected by the scope
  filter, \<open>crawl\<close> raises the scope violation with nothing fetched (the visited set is
  empty) and nothing written, whatever the fuel, and the tool exits with 1. When it
  is accepted, \<open>crawl\<close> never raises the scope violation: it returns, and the tool
  exits with 0; or an error of URL parsing ends it, and the tool exits with 1; or it
  is still running when the fuel is used up.
\<close>

theorem scope_violation_before_any_fetch:
  assumes "normalize_url w (rstrip_slash base_prefix) = Inr nb"
    and "urljoin w (nb @ ''/'') start_url = Inr joined"
    and "normalize_url w joined = Inr ns"
    and "is_allowed w ns nb excludes = Inr allowed"
  shows "if allowed
         then (case crawl w fuel start_url (rstrip_slash base_prefix) excludes [] of
                 None \<Rightarrow> crawl_main w fuel start_url base_prefix excludes = None
               | Some (Returned, t) \<Rightarrow>
                   crawl_main w fuel start_url base_prefix excludes = Some (0, sink t)
               | Some (Raised e, t) \<Rightarrow>
                   is_parse_error e \<and>
                   crawl_main w fuel start_url base_prefix excludes = Some (1, sink t))
         else crawl w fuel start_url (rstrip_slash base_prefix) excludes [] =
                Some (Raised (Start_outside_prefix ns nb), initial_state []) \<and>
              visited (initial_state []) = {} \<and> sink (initial_state []) = [] \<and>
              crawl_main w fuel start_url base_prefix excludes = Some (1, [])"
proof (cases allowed)
  case False
  then show ?thesis
    using assms by (simp add: crawl_def crawl_seed_def crawl_main_def initial_state_def)
next
  case True
  let ?s0 = "(initial_state [])\<lparr>queue := [ns], discovered := {ns}, sink := [] @ [ns @ [CHR 0x0A]]\<rparr>"
  have c: "crawl w fuel start_url (rstrip_slash base_prefix) excludes [] =
           crawl_loop w nb excludes fuel ?s0"
    using assms True by (simp add: crawl_def crawl_seed_def)
  show ?thesis
  proof (cases "crawl_loop w nb excludes fuel ?s0")
    case None
    then show ?thesis using True c by (simp add: crawl_main_def)
  next
    case (Some p)
    obtain out t where p: "p = (out, t)" by (cases p) auto
    show ?thesis
    proof (cases out)
      case Returned
      then show ?thesis using True c Some p by (simp add: crawl_main_def)
    next
      case (Raised e)
      then show ?thesis
        using True c Some p crawl_loop_error[of w nb excludes fuel ?s0 e t]
        by (simp add: crawl_main_def)
    qed
  qed
qed

text \<open>
  The example of the specification, a start URL on another host, and the small site,
  whose start URL is in scope and whose crawl returns.
\<close>

theorem scope_violation_before_any_fetch_witness:
  "normalize_url tiny_web (rstrip_slash ''https://x.com/docs/'') = Inr ''https://x.com/docs'' \<and>
   urljoin tiny_web (''https://x.com/docs'' @ ''/'') ''https://other.com'' = Inr ''https://other.com'' \<and>
   normalize_url tiny_web ''https://other.com'' = Inr ''https://other.com'' \<and>
   is_allowed tiny_web ''https://other.com'' ''https://x.com/docs'' [] = Inr False \<and>
   crawl tiny_web 3 ''https://other.com'' (rstrip_slash ''https://x.com/docs/'') [] [] =
     Some (Raised (Start_outside_prefix ''https://other.com'' ''https://x.com/docs''),
           initial_state []) \<and>
   crawl_main tiny_web 3 ''https://other.com'' ''https://x.com/docs/'' [] = Some (1, []) \<and>
   is_allowed tiny_web ''http://h/d'' ''http://h/d'' [] = Inr True \<and>
   crawl_main tiny_web 5 ''http://h/d/'' ''http://h/d'' [] = Some (0, sink tiny_done)"
proof -
  have a1: "normalize_url tiny_web (rstrip_slash ''https://x.com/docs/'') = Inr ''https://x.com/docs''"
    by code_simp
  have a2: "urljoin tiny_web (''https://x.com/docs'' @ ''/'') ''https://other.com'' = Inr ''https://other.com''"
    by code_simp
  have a3: "normalize_url tiny_web ''https://other.com'' = Inr ''https://other.com''"
    by code_simp
  have a4: "is_allowed tiny_web ''https://other.com'' ''https://x.com/docs'' [] = Inr False"
    by code_simp
  have b1: "normalize_url tiny_web (rstrip_slash ''http://h/d'') = Inr ''http://h/d''"
    by code_simp
  have b2: "urljoin tiny_web (''http://h/d'' @ ''/'') ''http://h/d/'' = Inr ''http://h/d/''"
    by code_simp
  have b3: "normalize_url tiny_web ''http://h/d/'' = Inr ''http://h/d''"
    by code_simp
  have b4: "is_allowed tiny_web ''http://h/d'' ''http://h/d'' [] = Inr True"
    by code_simp
  have b5: "crawl tiny_web 5 ''http://h/d/'' (rstrip_slash ''http://h/d'') [] [] = Some (Returned, tiny_done)"
    by code_simp
  show ?thesis
    using scope_violation_before_any_fetch[OF a1 a2 a3 a4, of 3]
      scope_violation_before_any_fetch[OF b1 b2 b3 b4, of 5] a1 a2 a3 a4 b4 b5
    by simp
qed

text \<open>
  C3 as stated fails in its last part: the start URL of this site is in scope, but the
  link \<open>http://[x\<close> on its page makes \<open>urljoin\<close> raise a \<open>ValueError\<close>, which
  \<open>main\<close> catches like the scope violation, and the tool exits with 1.
\<close>

theorem in_scope_start_can_exit_1:
  "is_allowed bad_href_web ''http://h/d'' ''http://h/d'' [] = Inr True \<and>
   urljoin bad_href_web ''http://h/d/'' ''http://[x'' = Inl Invalid_IPv6_URL \<and>
   crawl_main bad_href_web 5 ''http://h/d'' ''http://h/d'' [] = Some (1, [line_of ''http://h/d''])"
  by code_simp

subsection \<open>The scope filter\<close>

lemma startswith_prefix: "startswith s p = prefix p s"
  unfolding startswith_def prefix_def
  by (metis append_eq_conv_conj append_take_drop_id)

lemma excluded_iff:
  "excluded rp excludes =
     (\<exists>raw \<in> set excludes. prefix (if prefix ''/'' raw then raw else ''/'' @ raw) rp)"
  by (induction excludes) (auto simp: Let_def startswith_prefix)

text \<open>
  C4. For a URL and a prefix that \<open>urlsplit\<close> accepts, \<open>is_allowed\<close> returns what the
  specification says: true iff the prefix is a literal prefix of the URL and no exclude
  entry, made to start with a slash, is a prefix of the URL's path without its first
  \<open>len(base path)\<close> characters. It is a function of its arguments, with no state.
\<close>

theorem is_allowed_spec:
  assumes "urlsplit w url [] = Inr url_parts" and "urlsplit w base_prefix [] = Inr base_parts"
  shows "is_allowed w url base_prefix excludes =
         Inr (in_scope_spec url base_prefix (path url_parts) (path base_parts) excludes)"
  using assms
  by (simp add: is_allowed_def in_scope_spec_def startswith_prefix excluded_iff Let_def)

theorem is_allowed_spec_witness:
  "urlsplit tiny_web ''https://x.com/docs/reference/x'' [] =
     Inr \<lparr>scheme = ''https'', netloc = ''x.com'', path = ''/docs/reference/x'', query = [],
          fragment = []\<rparr> \<and>
   urlsplit tiny_web ''https://x.com/docs'' [] =
     Inr \<lparr>scheme = ''https'', netloc = ''x.com'', path = ''/docs'', query = [], fragment = []\<rparr> \<and>
   is_allowed tiny_web ''https://x.com/docs/reference/x'' ''https://x.com/docs'' [''reference''] =
     Inr (in_scope_spec ''https://x.com/docs/reference/x'' ''https://x.com/docs''
            ''/docs/reference/x'' ''/docs'' [''reference'']) \<and>
   is_allowed tiny_web ''https://x.com/docs/reference/x'' ''https://x.com/docs'' [''reference''] =
     Inr False \<and>
   is_allowed tiny_web ''https://x.com/docs/guide'' ''https://x.com/docs'' [''/reference''] = Inr True \<and>
   is_allowed tiny_web ''https://x.com/b'' ''https://x.com/a'' [] = Inr False \<and>
   is_allowed tiny_web ''https://x.com/docs-internal'' ''https://x.com/docs'' [] = Inr True"
proof -
  have u: "urlsplit tiny_web ''https://x.com/docs/reference/x'' [] =
     Inr \<lparr>scheme = ''https'', netloc = ''x.com'', path = ''/docs/reference/x'', query = [],
          fragment = []\<rparr>"
    by code_simp
  have b: "urlsplit tiny_web ''https://x.com/docs'' [] =
     Inr \<lparr>scheme = ''https'', netloc = ''x.com'', path = ''/docs'', query = [], fragment = []\<rparr>"
    by code_simp
  have e: "is_allowed tiny_web ''https://x.com/docs/reference/x'' ''https://x.com/docs'' [''reference''] =
     Inr False \<and>
   is_allowed tiny_web ''https://x.com/docs/guide'' ''https://x.com/docs'' [''/reference''] = Inr True \<and>
   is_allowed tiny_web ''https://x.com/b'' ''https://x.com/a'' [] = Inr False \<and>
   is_allowed tiny_web ''https://x.com/docs-internal'' ''https://x.com/docs'' [] = Inr True"
    by code_simp
  show ?thesis
    using is_allowed_spec[OF u b, of "[''reference'']"] u b e by simp
qed

subsection \<open>The normalizer on URLs with an authority\<close>

lemma split_rest_fold:
  "(case (if CHR ''#'' \<in> set url3 then split_once CHR ''#'' url3 else (url3, [])) of
      (url4, f) \<Rightarrow>
        (case (if CHR ''?'' \<in> set url4 then split_once CHR ''?'' url4 else (url4, [])) of
           (url5, q) \<Rightarrow> F url5 q f))
   = (case split_rest url3 of (p, q, f) \<Rightarrow> F p q f)"
  by (simp add: split_rest_def Let_def split: prod.splits)

lemma urlsplit_unfold:
  "urlsplit w u [] =
     (case split_scheme [] (clean_url u) of
        (scheme2, url2) \<Rightarrow>
          (case (if take 2 url2 = ''//'' then splitnetloc url2 else ([], url2)) of
             (netloc2, url3) \<Rightarrow>
               (case split_rest url3 of
                  (url5, query2, fragment2) \<Rightarrow>
                    if take 2 url2 = ''//'' \<and>
                       ((CHR ''['' \<in> set netloc2 \<and> CHR '']'' \<notin> set netloc2) \<or>
                        (CHR '']'' \<in> set netloc2 \<and> CHR ''['' \<notin> set netloc2))
                    then Inl Invalid_IPv6_URL
                    else if take 2 url2 = ''//'' \<and> CHR ''['' \<in> set netloc2 \<and> CHR '']'' \<in> set netloc2
                            \<and> \<not> bracketed_host_ok w (bracketed_host netloc2)
                    then Inl Invalid_bracketed_host
                    else if \<not> checknetloc w netloc2 then Inl Invalid_netloc_NFKC
                    else Inr \<lparr>scheme = scheme2, netloc = netloc2, path = url5, query = query2,
                              fragment = fragment2\<rparr>)))"
proof -
  have e: "remove_unsafe (rev (dropWhile c0_control_or_space (rev (dropWhile c0_control_or_space [])))) = []"
    by (simp add: remove_unsafe_def)
  show ?thesis
    unfolding urlsplit_def Let_def e split_rest_fold clean_url_def ..
qed

lemma urlsplit_authI:
  assumes "split_scheme [] (clean_url u) = (sc, url2)"
    and "take 2 url2 = ''//''"
    and "netloc_ok w (takeWhile (\<lambda>c. \<not> netloc_delim c) (drop 2 url2))"
    and "split_rest (dropWhile (\<lambda>c. \<not> netloc_delim c) (drop 2 url2)) = (p, q, f)"
  shows "urlsplit w u [] =
           Inr \<lparr>scheme = sc, netloc = takeWhile (\<lambda>c. \<not> netloc_delim c) (drop 2 url2),
                path = p, query = q, fragment = f\<rparr>"
  using assms unfolding urlsplit_unfold
  by (simp add: splitnetloc_def netloc_ok_def)

lemma urlsplit_authE:
  assumes "urlsplit w u [] = Inr r" and "netloc r \<noteq> []"
  obtains url2 where
    "split_scheme [] (clean_url u) = (scheme r, url2)"
    "take 2 url2 = ''//''"
    "netloc r = takeWhile (\<lambda>c. \<not> netloc_delim c) (drop 2 url2)"
    "netloc_ok w (netloc r)"
    "split_rest (dropWhile (\<lambda>c. \<not> netloc_delim c) (drop 2 url2)) = (path r, query r, fragment r)"
proof -
  obtain sc url2 where ss: "split_scheme [] (clean_url u) = (sc, url2)"
    by (cases "split_scheme [] (clean_url u)") auto
  obtain p q f where sr: "split_rest (dropWhile (\<lambda>c. \<not> netloc_delim c) (drop 2 url2)) = (p, q, f)"
    by (cases "split_rest (dropWhile (\<lambda>c. \<not> netloc_delim c) (drop 2 url2))") auto
  obtain p' q' f' where sr': "split_rest url2 = (p', q', f')"
    by (cases "split_rest url2") auto
  have h: "take 2 url2 = ''//''"
  proof (rule ccontr)
    assume "take 2 url2 \<noteq> ''//''"
    then have "urlsplit w u [] = Inr \<lparr>scheme = sc, netloc = [], path = p', query = q', fragment = f'\<rparr>"
      unfolding urlsplit_unfold using ss sr' by (simp add: checknetloc_def)
    with assms show False by auto
  qed
  have "netloc_ok w (takeWhile (\<lambda>c. \<not> netloc_delim c) (drop 2 url2)) \<and>
        r = \<lparr>scheme = sc, netloc = takeWhile (\<lambda>c. \<not> netloc_delim c) (drop 2 url2),
                path = p, query = q, fragment = f\<rparr>"
    using assms(1) unfolding urlsplit_unfold using ss sr h
    by (simp add: splitnetloc_def netloc_ok_def split: if_splits)
  then show ?thesis
    using that [of url2] ss sr h by simp
qed

lemma endswith_slash: "endswith s ''/'' = (s \<noteq> [] \<and> last s = CHR ''/'')"
proof (cases s rule: rev_cases)
  case Nil
  then show ?thesis by (simp add: endswith_def)
next
  case (snoc ys y)
  then show ?thesis by (auto simp: endswith_def)
qed

lemma rstrip_slash_snoc:
  "rstrip_slash (s @ [c]) = (if c = CHR ''/'' then rstrip_slash s else s @ [c])"
  by (simp add: rstrip_slash_def)

lemma dropWhile_replicate_same:
  "dropWhile (\<lambda>c. c = x) (replicate k x @ ys) = dropWhile (\<lambda>c. c = x) ys"
  by (induction k) simp_all

lemma rstrip_slash_replicate: "rstrip_slash (s @ replicate k CHR ''/'') = rstrip_slash s"
  by (simp add: rstrip_slash_def dropWhile_replicate_same)

lemma rstrip_slash_id: "s = [] \<or> last s \<noteq> CHR ''/'' \<Longrightarrow> rstrip_slash s = s"
  by (cases s rule: rev_cases) (auto simp: rstrip_slash_def)

lemma rstrip_slash_no_slash: "\<not> endswith (rstrip_slash s) ''/''"
proof (induction s rule: rev_induct)
  case Nil
  then show ?case by (simp add: rstrip_slash_def endswith_def)
next
  case (snoc x xs)
  then show ?case by (simp add: rstrip_slash_snoc endswith_slash)
qed

lemma urlunsplit_auth:
  assumes "netloc c \<noteq> []" and "fragment c = []"
  shows "urlunsplit c =
           (if scheme c \<noteq> [] then scheme c @ '':'' else []) @ ''//'' @ netloc c @
           (if path c \<noteq> [] \<and> take 1 (path c) \<noteq> ''/'' then ''/'' @ path c else path c) @
           (if query c \<noteq> [] then ''?'' @ query c else [])"
  using assms by (simp add: urlunsplit_def Let_def)

lemma urlunsplit_auth_guard:
  assumes "netloc c \<noteq> []" and "fragment c = []" and "CHR ''/'' \<notin> set (netloc c)"
    and "endswith (urlunsplit c) ''/''"
  shows "length (urlunsplit c) > length (scheme c) + 3"
proof -
  let ?t = "(if path c \<noteq> [] \<and> take 1 (path c) \<noteq> ''/'' then ''/'' @ path c else path c) @
           (if query c \<noteq> [] then ''?'' @ query c else [])"
  have u: "urlunsplit c = (if scheme c \<noteq> [] then scheme c @ '':'' else []) @ ''//'' @ netloc c @ ?t"
    using assms(1,2) by (rule urlunsplit_auth)
  have "?t \<noteq> []"
  proof
    assume "?t = []"
    then have "urlunsplit c = (if scheme c \<noteq> [] then scheme c @ '':'' else []) @ ''//'' @ netloc c"
      using u by simp
    then have "last (urlunsplit c) = last (netloc c)"
      using assms(1) by simp
    moreover have "last (netloc c) \<in> set (netloc c)" using assms(1) by simp
    ultimately show False using assms(3,4) by (auto simp: endswith_slash)
  qed
  then have "length ?t \<ge> 1" by (simp add: Suc_le_eq)
  moreover have "length (netloc c) \<ge> 1" using assms(1) by (simp add: Suc_le_eq)
  moreover have "length (urlunsplit c) \<ge> length (scheme c) + 2 + length (netloc c) + length ?t"
    by (subst u) simp
  ultimately show ?thesis by linarith
qed

lemma netloc_no_delim:
  assumes "urlsplit w u [] = Inr r"
  shows "\<forall>c\<in>set (netloc r). \<not> netloc_delim c"
proof (cases "netloc r = []")
  case True
  then show ?thesis by simp
next
  case False
  from assms False obtain url2 where
    "netloc r = takeWhile (\<lambda>c. \<not> netloc_delim c) (drop 2 url2)"
    by (rule urlsplit_authE)
  then show ?thesis by (auto dest: set_takeWhileD)
qed

lemma normalize_url_auth:
  assumes "urlsplit w u [] = Inr r" and "netloc r \<noteq> []"
  shows "normalize_url w u = Inr (rstrip_slash (urlunsplit (r\<lparr>fragment := []\<rparr>)))"
proof -
  let ?c = "r\<lparr>fragment := []\<rparr>"
  have nd: "CHR ''/'' \<notin> set (netloc ?c)"
    using netloc_no_delim [OF assms(1)] by (auto simp: netloc_delim_def)
  have g: "endswith (urlunsplit ?c) ''/'' \<Longrightarrow> length (urlunsplit ?c) > length (scheme ?c) + 3"
    using urlunsplit_auth_guard [of ?c] assms(2) nd by simp
  have "\<not> endswith (urlunsplit ?c) ''/'' \<Longrightarrow> rstrip_slash (urlunsplit ?c) = urlunsplit ?c"
    by (rule rstrip_slash_id) (auto simp: endswith_slash)
  with g show ?thesis
    using assms(1) by (auto simp: normalize_url_def Let_def)
qed

lemma in_dropWhile: "x \<in> set xs \<Longrightarrow> \<not> P x \<Longrightarrow> x \<in> set (dropWhile P xs)"
  by (induction xs) auto

lemma length_takeWhile_less: "x \<in> set xs \<Longrightarrow> \<not> P x \<Longrightarrow> length (takeWhile P xs) < length xs"
  by (induction xs) auto

lemma marker_chars:
  assumes "c = CHR ''#'' \<or> c = CHR ''?''"
  shows "\<not> c0_control_or_space c" and "\<not> unsafe_url_byte c" and "c \<notin> set scheme_chars"
    and "netloc_delim c" and "c \<noteq> CHR '':''" and "c \<noteq> CHR ''/''"
  using assms
  by (auto simp: c0_control_or_space_def unsafe_url_byte_def scheme_chars_def netloc_delim_def)

lemma marker_clean_url:
  assumes "c = CHR ''#'' \<or> c = CHR ''?''"
  shows "c \<in> set (clean_url u) \<longleftrightarrow> c \<in> set u"
proof
  assume "c \<in> set (clean_url u)"
  then show "c \<in> set u"
    by (auto simp: clean_url_def remove_unsafe_def dest: set_dropWhileD)
next
  assume "c \<in> set u"
  then have "c \<in> set (dropWhile c0_control_or_space u)"
    using marker_chars(1)[OF assms] by (rule in_dropWhile)
  then show "c \<in> set (clean_url u)"
    using marker_chars(2)[OF assms] by (simp add: clean_url_def remove_unsafe_def)
qed

lemma split_scheme_cases:
  assumes "split_scheme [] x = (sc, url2)"
  obtains (plain) "sc = []" "url2 = x"
  | (scheme) pre where "x = pre @ CHR '':'' # url2" "sc = map lower_char pre" "pre \<noteq> []"
      "CHR '':'' \<notin> set pre" "is_ascii (hd pre)" "is_ascii_alpha (hd pre)"
      "list_all (\<lambda>c. c \<in> set scheme_chars) pre"
proof (cases "CHR '':'' \<in> set x \<and> takeWhile (\<lambda>c. c \<noteq> CHR '':'') x \<noteq> [] \<and> is_ascii (hd x) \<and> is_ascii_alpha (hd x)
         \<and> list_all (\<lambda>c. c \<in> set scheme_chars) (takeWhile (\<lambda>c. c \<noteq> CHR '':'') x)")
  case False
  then have "sc = []" "url2 = x"
    using assms by (auto simp: split_scheme_def Let_def)
  then show ?thesis by (rule plain)
next
  case True
  let ?pre = "takeWhile (\<lambda>c. c \<noteq> CHR '':'') x"
  have d: "dropWhile (\<lambda>c. c \<noteq> CHR '':'') x \<noteq> []"
    using True by (auto simp: dropWhile_eq_Nil_conv)
  then have h: "hd (dropWhile (\<lambda>c. c \<noteq> CHR '':'') x) = CHR '':''"
    using hd_dropWhile[of "\<lambda>c. c \<noteq> CHR '':''" x] by simp
  have x: "x = ?pre @ CHR '':'' # tl (dropWhile (\<lambda>c. c \<noteq> CHR '':'') x)"
    using d h by (metis hd_Cons_tl takeWhile_dropWhile_id)
  have "drop (length ?pre + 1) x = tl (dropWhile (\<lambda>c. c \<noteq> CHR '':'') x)"
    by (subst x) simp
  then have u: "url2 = tl (dropWhile (\<lambda>c. c \<noteq> CHR '':'') x)" and s: "sc = map lower_char ?pre"
    using assms True by (auto simp: split_scheme_def Let_def)
  have hdp: "hd ?pre = hd x" using True by (cases x) auto
  show ?thesis
  proof (rule scheme[of ?pre])
    show "x = ?pre @ CHR '':'' # url2" using x u by simp
    show "sc = map lower_char ?pre" by (rule s)
    show "?pre \<noteq> []" using True by simp
    show "CHR '':'' \<notin> set ?pre" by (auto dest: set_takeWhileD)
    show "is_ascii (hd ?pre)" "is_ascii_alpha (hd ?pre)" using True hdp by simp_all
    show "list_all (\<lambda>c. c \<in> set scheme_chars) ?pre" using True by simp
  qed
qed

lemma clean_url_append:
  assumes "clean_url u \<noteq> []"
  shows "clean_url (u @ replicate k CHR ''/'') = clean_url u @ replicate k CHR ''/''"
proof -
  have "dropWhile c0_control_or_space u \<noteq> []"
  proof
    assume a: "dropWhile c0_control_or_space u = []"
    have "clean_url u = []" unfolding clean_url_def remove_unsafe_def a by simp
    with assms show False by simp
  qed
  then obtain x where "x \<in> set u" "\<not> c0_control_or_space x"
    by (auto simp: dropWhile_eq_Nil_conv)
  then have "dropWhile c0_control_or_space (u @ replicate k CHR ''/'') =
             dropWhile c0_control_or_space u @ replicate k CHR ''/''"
    by (rule dropWhile_append1)
  moreover have "filter (\<lambda>c. \<not> unsafe_url_byte c) (replicate k CHR ''/'') = replicate k CHR ''/''"
    by (simp add: unsafe_url_byte_def)
  ultimately show ?thesis by (simp add: clean_url_def remove_unsafe_def)
qed

lemma split_scheme_append:
  assumes "split_scheme [] x = (sc, url2)" and "x \<noteq> []"
  shows "split_scheme [] (x @ replicate k CHR ''/'') = (sc, url2 @ replicate k CHR ''/'')"
proof (cases "CHR '':'' \<in> set x")
  case True
  then have tw: "takeWhile (\<lambda>c. c \<noteq> CHR '':'') (x @ replicate k CHR ''/'') =
                 takeWhile (\<lambda>c. c \<noteq> CHR '':'') x"
    by (simp add: takeWhile_append1)
  have "length (takeWhile (\<lambda>c. c \<noteq> CHR '':'') x) < length x"
    using True by (simp add: length_takeWhile_less)
  then have dr: "drop (length (takeWhile (\<lambda>c. c \<noteq> CHR '':'') x) + 1) (x @ replicate k CHR ''/'') =
                 drop (length (takeWhile (\<lambda>c. c \<noteq> CHR '':'') x) + 1) x @ replicate k CHR ''/''"
    by simp
  have hd: "hd (x @ replicate k CHR ''/'') = hd x" using assms(2) by simp
  have m: "CHR '':'' \<in> set (x @ replicate k CHR ''/'')" using True by simp
  show ?thesis
    using assms(1) unfolding split_scheme_def Let_def tw hd dr
    by (simp only: m True split: if_splits) auto
next
  case False
  then have "CHR '':'' \<notin> set (x @ replicate k CHR ''/'')" by auto
  then show ?thesis
    using assms(1) False by (simp add: split_scheme_def Let_def)
qed

lemma netloc_split_append:
  "takeWhile (\<lambda>c. \<not> netloc_delim c) (y @ replicate k CHR ''/'') =
     takeWhile (\<lambda>c. \<not> netloc_delim c) y"
  "dropWhile (\<lambda>c. \<not> netloc_delim c) (y @ replicate k CHR ''/'') =
     dropWhile (\<lambda>c. \<not> netloc_delim c) y @ replicate k CHR ''/''"
proof -
  have t: "takeWhile (\<lambda>c. \<not> netloc_delim c) (replicate k CHR ''/'') = []"
    by (cases k) (simp_all add: netloc_delim_def)
  have d: "dropWhile (\<lambda>c. \<not> netloc_delim c) (replicate k CHR ''/'') = replicate k CHR ''/''"
    by (cases k) (simp_all add: netloc_delim_def)
  show "takeWhile (\<lambda>c. \<not> netloc_delim c) (y @ replicate k CHR ''/'') =
     takeWhile (\<lambda>c. \<not> netloc_delim c) y"
    using t by (induction y) simp_all
  show "dropWhile (\<lambda>c. \<not> netloc_delim c) (y @ replicate k CHR ''/'') =
     dropWhile (\<lambda>c. \<not> netloc_delim c) y @ replicate k CHR ''/''"
    using d by (induction y) simp_all
qed

lemma split_once_append:
  "c \<in> set z \<Longrightarrow> split_once c (z @ s) = (fst (split_once c z), snd (split_once c z) @ s)"
  by (induction z) (auto simp: split_once_def)

lemma split_rest_append:
  assumes "split_rest z = (p, q, f)" and "c \<noteq> CHR ''#''" and "c \<noteq> CHR ''?''"
  shows "split_rest (z @ replicate k c) =
           (if CHR ''#'' \<in> set z then (p, q, f @ replicate k c)
            else if CHR ''?'' \<in> set z then (p, q @ replicate k c, f)
            else (p @ replicate k c, q, f))"
proof (cases "CHR ''#'' \<in> set z")
  case True
  then show ?thesis
    using assms by (auto simp: split_rest_def Let_def split_once_append split: prod.splits if_splits)
next
  case False
  show ?thesis
  proof (cases "CHR ''?'' \<in> set z")
    case True
    then show ?thesis
      using assms False
      by (auto simp: split_rest_def Let_def split_once_append split: prod.splits if_splits)
  next
    case q: False
    then show ?thesis
      using assms False by (simp add: split_rest_def Let_def)
  qed
qed

lemma marker_in_rest:
  assumes ss: "split_scheme [] (clean_url u) = (sc, url2)" and has: "take 2 url2 = ''//''"
    and c: "c = CHR ''#'' \<or> c = CHR ''?''"
  shows "c \<in> set (dropWhile (\<lambda>c. \<not> netloc_delim c) (drop 2 url2)) \<longleftrightarrow> c \<in> set u"
proof -
  have 1: "c \<in> set url2 \<longleftrightarrow> c \<in> set (clean_url u)"
    using ss
  proof (cases rule: split_scheme_cases)
    case plain
    then show ?thesis by simp
  next
    case (scheme pre)
    have "c \<notin> set pre"
      using scheme(7) marker_chars(3)[OF c] by (auto simp: list_all_iff)
    then show ?thesis
      using scheme(1) marker_chars(5)[OF c] by auto
  qed
  have "url2 = take 2 url2 @ drop 2 url2" by simp
  then have "set url2 = set ''//'' \<union> set (drop 2 url2)"
    using has by (metis set_append)
  then have 2: "c \<in> set (drop 2 url2) \<longleftrightarrow> c \<in> set url2"
    using marker_chars(6)[OF c] by auto
  have 3: "c \<in> set (dropWhile (\<lambda>c. \<not> netloc_delim c) (drop 2 url2)) \<longleftrightarrow> c \<in> set (drop 2 url2)"
    using marker_chars(4)[OF c] in_dropWhile[of c "drop 2 url2" "\<lambda>c. \<not> netloc_delim c"]
    by (auto dest: set_dropWhileD)
  show ?thesis
    using 1 2 3 marker_clean_url[OF c] by simp
qed

lemma split_rest_no_query: "CHR ''?'' \<notin> set z \<Longrightarrow> fst (snd (split_rest z)) = []"
  by (auto simp: split_rest_def Let_def split_once_def split: prod.splits dest: set_takeWhileD)

lemma query_empty_without_marker:
  assumes "urlsplit w u [] = Inr r" and "netloc r \<noteq> []" and "CHR ''?'' \<notin> set u"
  shows "query r = []"
proof -
  from assms(1,2) obtain url2 where
    ss: "split_scheme [] (clean_url u) = (scheme r, url2)" and has: "take 2 url2 = ''//''"
    and sr: "split_rest (dropWhile (\<lambda>c. \<not> netloc_delim c) (drop 2 url2)) = (path r, query r, fragment r)"
    by (rule urlsplit_authE)
  have "CHR ''?'' \<notin> set (dropWhile (\<lambda>c. \<not> netloc_delim c) (drop 2 url2))"
    using marker_in_rest[OF ss has, of "CHR ''?''"] assms(3) by simp
  then show ?thesis
    using split_rest_no_query[of "dropWhile (\<lambda>c. \<not> netloc_delim c) (drop 2 url2)"] sr by simp
qed

lemma urlsplit_append_slashes:
  assumes "urlsplit w u [] = Inr r" and "netloc r \<noteq> []"
  shows "urlsplit w (u @ replicate k CHR ''/'') [] =
           Inr (if CHR ''#'' \<in> set u then r\<lparr>fragment := fragment r @ replicate k CHR ''/''\<rparr>
                else if CHR ''?'' \<in> set u then r\<lparr>query := query r @ replicate k CHR ''/''\<rparr>
                else r\<lparr>path := path r @ replicate k CHR ''/''\<rparr>)"
proof -
  let ?s = "replicate k CHR ''/''"
  from assms obtain url2 where
    ss: "split_scheme [] (clean_url u) = (scheme r, url2)" and has: "take 2 url2 = ''//''"
    and nl: "netloc r = takeWhile (\<lambda>c. \<not> netloc_delim c) (drop 2 url2)"
    and ok: "netloc_ok w (netloc r)"
    and sr: "split_rest (dropWhile (\<lambda>c. \<not> netloc_delim c) (drop 2 url2)) = (path r, query r, fragment r)"
    by (rule urlsplit_authE)
  let ?z = "dropWhile (\<lambda>c. \<not> netloc_delim c) (drop 2 url2)"
  have "length (take 2 url2) = 2" using has by simp
  then have l: "length url2 \<ge> 2" by simp
  then have u2: "url2 \<noteq> []" by auto
  have ne: "clean_url u \<noteq> []"
    using ss
  proof (cases rule: split_scheme_cases)
    case plain
    then show ?thesis using u2 by simp
  next
    case (scheme pre)
    then show ?thesis by simp
  qed
  have ss': "split_scheme [] (clean_url (u @ ?s)) = (scheme r, url2 @ ?s)"
    using split_scheme_append[OF ss ne] clean_url_append[OF ne] by simp
  have has': "take 2 (url2 @ ?s) = ''//''" using has l by simp
  have d2: "drop 2 (url2 @ ?s) = drop 2 url2 @ ?s" using l by simp
  have tk: "takeWhile (\<lambda>c. \<not> netloc_delim c) (drop 2 (url2 @ ?s)) = netloc r"
    unfolding d2 netloc_split_append nl ..
  have dk: "dropWhile (\<lambda>c. \<not> netloc_delim c) (drop 2 (url2 @ ?s)) = ?z @ ?s"
    unfolding d2 netloc_split_append ..
  have m1: "CHR ''#'' \<in> set ?z \<longleftrightarrow> CHR ''#'' \<in> set u"
    using marker_in_rest[OF ss has] by simp
  have m2: "CHR ''?'' \<in> set ?z \<longleftrightarrow> CHR ''?'' \<in> set u"
    using marker_in_rest[OF ss has] by simp
  have sr': "split_rest (?z @ ?s) =
           (if CHR ''#'' \<in> set u then (path r, query r, fragment r @ ?s)
            else if CHR ''?'' \<in> set u then (path r, query r @ ?s, fragment r)
            else (path r @ ?s, query r, fragment r))"
    using split_rest_append[OF sr, of "CHR ''/''" k] m1 m2 by simp
  have ok': "netloc_ok w (takeWhile (\<lambda>c. \<not> netloc_delim c) (drop 2 (url2 @ ?s)))"
    using ok tk by simp
  show ?thesis
  proof (cases "CHR ''#'' \<in> set u")
    case True
    then have "split_rest (dropWhile (\<lambda>c. \<not> netloc_delim c) (drop 2 (url2 @ ?s))) =
                 (path r, query r, fragment r @ ?s)"
      using sr' dk by simp
    from urlsplit_authI[OF ss' has' ok' this, unfolded tk] True show ?thesis
      by (cases r) simp
  next
    case False
    show ?thesis
    proof (cases "CHR ''?'' \<in> set u")
      case True
      then have "split_rest (dropWhile (\<lambda>c. \<not> netloc_delim c) (drop 2 (url2 @ ?s))) =
                 (path r, query r @ ?s, fragment r)"
        using sr' dk False by simp
      from urlsplit_authI[OF ss' has' ok' this, unfolded tk] True False show ?thesis
        by (cases r) simp
    next
      case q: False
      then have "split_rest (dropWhile (\<lambda>c. \<not> netloc_delim c) (drop 2 (url2 @ ?s))) =
                 (path r @ ?s, query r, fragment r)"
        using sr' dk False by simp
      from urlsplit_authI[OF ss' has' ok' this, unfolded tk] q False show ?thesis
        by (cases r) simp
    qed
  qed
qed

lemma urlunsplit_path_append:
  assumes "netloc c \<noteq> []" and "fragment c = []" and "query c = []"
  shows "urlunsplit (c\<lparr>path := path c @ replicate k CHR ''/''\<rparr>) =
         urlunsplit c @ replicate k CHR ''/''"
  using assms by (cases k; cases "path c") (simp_all add: urlunsplit_def Let_def)

lemma urlunsplit_query_append:
  assumes "netloc c \<noteq> []" and "fragment c = []" and "query c \<noteq> []"
  shows "urlunsplit (c\<lparr>query := query c @ s\<rparr>) = urlunsplit c @ s"
  using assms by (simp add: urlunsplit_def Let_def)

subsection \<open>Trailing slashes\<close>

text \<open>
  C10 as stated fails at a URL that ends in a bare question mark: the slash that follows
  becomes the query, the question mark stays, and the two URLs get different canonical
  forms.
\<close>

theorem trailing_slash_after_bare_question_mark:
  "normalize_url tiny_web ''http://a/b?'' = Inr ''http://a/b'' \<and>
   normalize_url tiny_web (''http://a/b?'' @ replicate 1 CHR ''/'') = Inr ''http://a/b?'' \<and>
   normalize_url tiny_web (''http://a/b?'' @ replicate 1 CHR ''/'') \<noteq>
     normalize_url tiny_web ''http://a/b?''"
  by code_simp

lemma rstrip_slash_after:
  "x \<noteq> [] \<Longrightarrow> last x \<noteq> CHR ''/'' \<Longrightarrow> rstrip_slash (x @ y) = x @ rstrip_slash y"
proof (induction y rule: rev_induct)
  case Nil
  then show ?case by (simp add: rstrip_slash_id)
next
  case (snoc c ys)
  have "rstrip_slash (x @ ys @ [c]) = rstrip_slash ((x @ ys) @ [c])" by simp
  also have "\<dots> = (if c = CHR ''/'' then rstrip_slash (x @ ys) else (x @ ys) @ [c])"
    by (rule rstrip_slash_snoc)
  finally show ?case using snoc by (simp add: rstrip_slash_snoc)
qed

lemma rstrip_slash_Nil_iff: "rstrip_slash q = [] \<longleftrightarrow> (\<forall>c\<in>set q. c = CHR ''/'')"
  by (induction q rule: rev_induct) (auto simp: rstrip_slash_snoc rstrip_slash_def)

lemma set_rstrip_slash: "set (rstrip_slash p) \<subseteq> set p"
  by (induction p rule: rev_induct) (auto simp: rstrip_slash_snoc rstrip_slash_def)

lemma hd_rstrip_slash: "rstrip_slash p \<noteq> [] \<Longrightarrow> hd (rstrip_slash p) = hd p"
proof (induction p rule: rev_induct)
  case Nil
  then show ?case by (simp add: rstrip_slash_def)
next
  case (snoc c ys)
  show ?case
  proof (cases "c = CHR ''/''")
    case True
    then have r: "rstrip_slash (ys @ [c]) = rstrip_slash ys" by (simp add: rstrip_slash_snoc)
    then have "rstrip_slash ys \<noteq> []" using snoc.prems by simp
    moreover from this have "ys \<noteq> []" by (auto simp: rstrip_slash_def)
    ultimately show ?thesis using snoc.IH r by simp
  next
    case False
    then show ?thesis by (simp add: rstrip_slash_snoc)
  qed
qed

lemma rstrip_slash_idem: "rstrip_slash (rstrip_slash s) = rstrip_slash s"
  using rstrip_slash_no_slash[of s] by (intro rstrip_slash_id) (auto simp: endswith_slash)

lemma scheme_char_facts:
  "list_all (\<lambda>c. lower_char c \<in> set scheme_chars \<and> lower_char (lower_char c) = lower_char c \<and>
              \<not> unsafe_url_byte (lower_char c) \<and> lower_char c \<noteq> CHR '':'' \<and>
              (is_ascii c \<and> is_ascii_alpha c \<longrightarrow>
                 is_ascii (lower_char c) \<and> is_ascii_alpha (lower_char c) \<and>
                 \<not> c0_control_or_space (lower_char c)))
     scheme_chars"
  by code_simp

lemma split_rest_explicit:
  "split_rest z =
     (takeWhile (\<lambda>c. c \<noteq> CHR ''?'') (takeWhile (\<lambda>c. c \<noteq> CHR ''#'') z),
      drop 1 (dropWhile (\<lambda>c. c \<noteq> CHR ''?'') (takeWhile (\<lambda>c. c \<noteq> CHR ''#'') z)),
      drop 1 (dropWhile (\<lambda>c. c \<noteq> CHR ''#'') z))"
proof (cases "CHR ''#'' \<in> set z")
  case True
  show ?thesis
  proof (cases "CHR ''?'' \<in> set (takeWhile (\<lambda>c. c \<noteq> CHR ''#'') z)")
    case q: True
    then show ?thesis
      using True by (simp add: split_rest_def Let_def split_once_def)
  next
    case q: False
    then have t: "takeWhile (\<lambda>c. c \<noteq> CHR ''?'') (takeWhile (\<lambda>c. c \<noteq> CHR ''#'') z) =
                  takeWhile (\<lambda>c. c \<noteq> CHR ''#'') z"
      and d: "dropWhile (\<lambda>c. c \<noteq> CHR ''?'') (takeWhile (\<lambda>c. c \<noteq> CHR ''#'') z) = []"
      by auto
    show ?thesis
      unfolding t d using True q by (simp add: split_rest_def Let_def split_once_def)
  qed
next
  case False
  then have t: "takeWhile (\<lambda>c. c \<noteq> CHR ''#'') z = z"
    and d: "dropWhile (\<lambda>c. c \<noteq> CHR ''#'') z = []"
    by auto
  show ?thesis
  proof (cases "CHR ''?'' \<in> set z")
    case q: True
    show ?thesis
      unfolding t d using False q by (simp add: split_rest_def Let_def split_once_def)
  next
    case q: False
    then have t2: "takeWhile (\<lambda>c. c \<noteq> CHR ''?'') z = z"
      and d2: "dropWhile (\<lambda>c. c \<noteq> CHR ''?'') z = []"
      by auto
    show ?thesis
      unfolding t d t2 d2 using False q by (simp add: split_rest_def Let_def split_once_def)
  qed
qed

lemma hd_takeWhile: "takeWhile P xs \<noteq> [] \<Longrightarrow> hd (takeWhile P xs) = hd xs"
  by (cases xs) (auto split: if_splits)

lemma split_rest_parts:
  assumes "split_rest z = (p, q, f)"
  shows "set p \<subseteq> set z" and "set q \<subseteq> set z" and "CHR ''#'' \<notin> set p" and "CHR ''?'' \<notin> set p"
    and "CHR ''#'' \<notin> set q" and "p = [] \<or> hd p = hd z"
proof -
  let ?y = "takeWhile (\<lambda>c. c \<noteq> CHR ''#'') z"
  have p: "p = takeWhile (\<lambda>c. c \<noteq> CHR ''?'') ?y"
    and q: "q = drop 1 (dropWhile (\<lambda>c. c \<noteq> CHR ''?'') ?y)"
    using assms by (simp_all add: split_rest_explicit)
  have y: "set ?y \<subseteq> set z" "CHR ''#'' \<notin> set ?y"
    by (auto dest: set_takeWhileD)
  show "set p \<subseteq> set z" using y(1) unfolding p by (auto dest: set_takeWhileD)
  show "set q \<subseteq> set z" using y(1) unfolding q by (auto dest: in_set_dropD set_dropWhileD)
  show "CHR ''#'' \<notin> set p" using y(2) unfolding p by (auto dest: set_takeWhileD)
  show "CHR ''?'' \<notin> set p" unfolding p by (auto dest: set_takeWhileD)
  show "CHR ''#'' \<notin> set q" using y(2) unfolding q by (auto dest: in_set_dropD set_dropWhileD)
  show "p = [] \<or> hd p = hd z"
  proof (cases "p = []")
    case True
    then show ?thesis by simp
  next
    case False
    then have "hd p = hd ?y" unfolding p by (rule hd_takeWhile)
    moreover have "?y \<noteq> []" using False p by auto
    then have "hd ?y = hd z" by (rule hd_takeWhile)
    ultimately show ?thesis by simp
  qed
qed

lemma set_clean_url: "\<forall>c\<in>set (clean_url u). \<not> unsafe_url_byte c"
  by (simp add: clean_url_def remove_unsafe_def)

lemma urlsplit_auth_parts:
  assumes "urlsplit w u [] = Inr r" and "netloc r \<noteq> []"
  shows "scheme_ok (scheme r)" and "\<forall>c\<in>set (netloc r). \<not> netloc_delim c"
    and "netloc_ok w (netloc r)" and "path r = [] \<or> hd (path r) = CHR ''/''"
    and "CHR ''?'' \<notin> set (path r)" and "CHR ''#'' \<notin> set (path r)"
    and "CHR ''#'' \<notin> set (query r)"
    and "\<forall>c\<in>set (netloc r @ path r @ query r). \<not> unsafe_url_byte c"
proof -
  from assms obtain url2 where
    ss: "split_scheme [] (clean_url u) = (scheme r, url2)" and has: "take 2 url2 = ''//''"
    and nl: "netloc r = takeWhile (\<lambda>c. \<not> netloc_delim c) (drop 2 url2)"
    and ok: "netloc_ok w (netloc r)"
    and sr: "split_rest (dropWhile (\<lambda>c. \<not> netloc_delim c) (drop 2 url2)) = (path r, query r, fragment r)"
    by (rule urlsplit_authE)
  let ?z = "dropWhile (\<lambda>c. \<not> netloc_delim c) (drop 2 url2)"
  note parts = split_rest_parts[OF sr]
  show "netloc_ok w (netloc r)" by (rule ok)
  show "\<forall>c\<in>set (netloc r). \<not> netloc_delim c" by (rule netloc_no_delim[OF assms(1)])
  show "CHR ''?'' \<notin> set (path r)" "CHR ''#'' \<notin> set (path r)" "CHR ''#'' \<notin> set (query r)"
    by (rule parts)+
  have sub: "set url2 \<subseteq> set (clean_url u)"
    using ss
  proof (cases rule: split_scheme_cases)
    case plain
    then show ?thesis by simp
  next
    case (scheme pre)
    then show ?thesis by auto
  qed
  have sch: "scheme_ok (scheme r)"
    using ss
  proof (cases rule: split_scheme_cases)
    case plain
    then show ?thesis by (simp add: scheme_ok_def)
  next
    case (scheme pre)
    then show ?thesis by (auto simp: scheme_ok_def)
  qed
  show "scheme_ok (scheme r)" by (rule sch)
  have "set (netloc r) \<subseteq> set url2" unfolding nl by (auto dest: set_takeWhileD in_set_dropD)
  moreover have "set ?z \<subseteq> set url2" by (auto dest: set_dropWhileD in_set_dropD)
  ultimately have "set (netloc r) \<subseteq> set (clean_url u)" "set (path r) \<subseteq> set (clean_url u)"
    "set (query r) \<subseteq> set (clean_url u)"
    using parts(1,2) sub by blast+
  then show "\<forall>c\<in>set (netloc r @ path r @ query r). \<not> unsafe_url_byte c"
    using set_clean_url[of u] by auto
  show "path r = [] \<or> hd (path r) = CHR ''/''"
  proof (cases "path r = []")
    case True
    then show ?thesis by simp
  next
    case False
    then have h: "hd (path r) = hd ?z" using parts(6) by simp
    have "?z \<noteq> []"
    proof
      assume e: "?z = []"
      have "set (path r) \<subseteq> set ?z" by (rule parts(1))
      then have "path r = []" unfolding e by simp
      with False show False by simp
    qed
    then have "netloc_delim (hd ?z)"
      using hd_dropWhile[of "\<lambda>c. \<not> netloc_delim c" "drop 2 url2"] by simp
    moreover have "hd (path r) \<in> set (path r)" using False by simp
    ultimately show ?thesis
      using h parts(3,4) by (auto simp: netloc_delim_def)
  qed
qed

lemma scheme_ok_facts:
  assumes "scheme_ok sc"
  shows "\<forall>c\<in>set sc. c \<in> set scheme_chars \<and> lower_char c = c \<and> \<not> unsafe_url_byte c \<and> c \<noteq> CHR '':''"
    and "sc \<noteq> [] \<Longrightarrow> is_ascii (hd sc) \<and> is_ascii_alpha (hd sc) \<and> \<not> c0_control_or_space (hd sc)"
proof -
  note f = scheme_char_facts[unfolded list_all_iff]
  show "\<forall>c\<in>set sc. c \<in> set scheme_chars \<and> lower_char c = c \<and> \<not> unsafe_url_byte c \<and> c \<noteq> CHR '':''"
  proof (cases "sc = []")
    case True
    then show ?thesis by simp
  next
    case False
    then obtain pre where pre: "sc = map lower_char pre"
      "list_all (\<lambda>c. c \<in> set scheme_chars) pre"
      using assms by (auto simp: scheme_ok_def)
    show ?thesis
    proof
      fix c assume "c \<in> set sc"
      then obtain d where d: "d \<in> set pre" "c = lower_char d" using pre(1) by auto
      then have "d \<in> set scheme_chars" using pre(2) by (simp add: list_all_iff)
      from bspec[OF f this]
      show "c \<in> set scheme_chars \<and> lower_char c = c \<and> \<not> unsafe_url_byte c \<and> c \<noteq> CHR '':''"
        unfolding d(2) by simp
    qed
  qed
  show "is_ascii (hd sc) \<and> is_ascii_alpha (hd sc) \<and> \<not> c0_control_or_space (hd sc)" if "sc \<noteq> []"
  proof -
    from that obtain pre where pre: "sc = map lower_char pre" "pre \<noteq> []"
      "is_ascii (hd pre)" "is_ascii_alpha (hd pre)" "list_all (\<lambda>c. c \<in> set scheme_chars) pre"
      using assms by (auto simp: scheme_ok_def)
    have "hd pre \<in> set scheme_chars" using pre(2,5) by (simp add: list_all_iff)
    moreover have "hd sc = lower_char (hd pre)" using pre(1,2) by (simp add: hd_map)
    ultimately show ?thesis using bspec[OF f, of "hd pre"] pre(3,4) by simp
  qed
qed

lemma takeWhile_all_then:
  assumes "\<forall>c\<in>set a. P c" and "b = [] \<or> \<not> P (hd b)"
  shows "takeWhile P (a @ b) = a" and "dropWhile P (a @ b) = b"
proof -
  have t: "takeWhile P b = []" and d: "dropWhile P b = b"
    using assms(2) by (cases b; simp)+
  show "takeWhile P (a @ b) = a" using assms(1) t by (induction a) simp_all
  show "dropWhile P (a @ b) = b" using assms(1) d by (induction a) simp_all
qed

lemma split_scheme_auth_url:
  assumes "scheme_ok sc"
  shows "split_scheme [] ((if sc \<noteq> [] then sc @ '':'' else []) @ CHR ''/'' # t) = (sc, CHR ''/'' # t)"
proof (cases "sc = []")
  case True
  then show ?thesis by (simp add: split_scheme_def Let_def is_ascii_alpha_def)
next
  case False
  note scf = scheme_ok_facts[OF assms]
  have tw: "takeWhile (\<lambda>c. c \<noteq> CHR '':'') (sc @ CHR '':'' # CHR ''/'' # t) = sc"
    using takeWhile_all_then(1)[of sc "\<lambda>c. c \<noteq> CHR '':''" "CHR '':'' # CHR ''/'' # t"] scf(1) by simp
  have ml: "map lower_char sc = sc" using scf(1) by (simp add: map_idI)
  have la: "list_all (\<lambda>c. c \<in> set scheme_chars) sc" using scf(1) by (simp add: list_all_iff)
  have hd: "hd (sc @ CHR '':'' # CHR ''/'' # t) = hd sc" using False by simp
  have "split_scheme [] (sc @ CHR '':'' # CHR ''/'' # t) = (sc, CHR ''/'' # t)"
    unfolding split_scheme_def Let_def tw hd using False scf(2) ml la by simp
  then show ?thesis using False by simp
qed

lemma urlsplit_of_unsplit:
  assumes sc: "scheme_ok sc"
    and nl: "nl \<noteq> []" "\<forall>c\<in>set nl. \<not> netloc_delim c" "netloc_ok w nl"
    and p: "p = [] \<or> hd p = CHR ''/''" "CHR ''?'' \<notin> set p" "CHR ''#'' \<notin> set p"
    and q: "CHR ''#'' \<notin> set q"
    and safe: "\<forall>c\<in>set (nl @ p @ q). \<not> unsafe_url_byte c"
  shows "urlsplit w (auth_url sc nl p q) [] =
           Inr \<lparr>scheme = sc, netloc = nl, path = p, query = q, fragment = []\<rparr>"
proof -
  let ?rest = "p @ (if q \<noteq> [] then ''?'' @ q else [])"
  let ?t = "CHR ''/'' # nl @ ?rest"
  let ?url2 = "CHR ''/'' # ?t"
  let ?u = "auth_url sc nl p q"
  have n: "?u = (if sc \<noteq> [] then sc @ '':'' else []) @ ?url2"
    by (simp add: auth_url_def)
  note scf = scheme_ok_facts[OF sc]
  have "\<forall>c\<in>set ?u. \<not> unsafe_url_byte c"
    using scf(1) safe by (auto simp: auth_url_def unsafe_url_byte_def)
  then have ru: "remove_unsafe ?u = ?u"
    by (simp add: remove_unsafe_def)
  have "\<not> c0_control_or_space (hd ?u)"
    using scf(2) by (cases "sc = []") (simp_all add: auth_url_def c0_control_or_space_def)
  moreover have "?u \<noteq> []" by (simp add: auth_url_def)
  ultimately have "dropWhile c0_control_or_space ?u = ?u"
    by (cases ?u) simp_all
  then have cl: "clean_url ?u = ?u"
    using ru by (simp add: clean_url_def)
  have ss: "split_scheme [] (clean_url ?u) = (sc, ?url2)"
    unfolding cl unfolding n by (rule split_scheme_auth_url[OF sc])
  have has: "take 2 ?url2 = ''//''" by simp
  have d2: "drop 2 ?url2 = nl @ ?rest" by simp
  have "?rest = [] \<or> \<not> \<not> netloc_delim (hd ?rest)"
    using p(1) by (cases "p = []") (auto simp: netloc_delim_def)
  from takeWhile_all_then[OF nl(2) this]
  have tk: "takeWhile (\<lambda>c. \<not> netloc_delim c) (drop 2 ?url2) = nl"
    and dk: "dropWhile (\<lambda>c. \<not> netloc_delim c) (drop 2 ?url2) = ?rest"
    unfolding d2 by simp_all
  have nf: "CHR ''#'' \<notin> set ?rest" using p(3) q by simp
  then have t1: "takeWhile (\<lambda>c. c \<noteq> CHR ''#'') ?rest = ?rest"
    and d1: "dropWhile (\<lambda>c. c \<noteq> CHR ''#'') ?rest = []"
    by auto
  have pq: "\<forall>c\<in>set p. c \<noteq> CHR ''?''" using p(2) by auto
  have qh: "(if q \<noteq> [] then ''?'' @ q else []) = [] \<or>
        \<not> hd (if q \<noteq> [] then ''?'' @ q else []) \<noteq> CHR ''?''"
    by simp
  have t2: "takeWhile (\<lambda>c. c \<noteq> CHR ''?'') ?rest = p"
    by (rule takeWhile_all_then(1)[OF pq qh])
  have d3: "dropWhile (\<lambda>c. c \<noteq> CHR ''?'') ?rest = (if q \<noteq> [] then ''?'' @ q else [])"
    by (rule takeWhile_all_then(2)[OF pq qh])
  have sr: "split_rest ?rest = (p, q, [])"
    unfolding split_rest_explicit t1 d1 t2 d3 by simp
  have ok: "netloc_ok w (takeWhile (\<lambda>c. \<not> netloc_delim c) (drop 2 ?url2))"
    unfolding tk by (rule nl(3))
  have sr': "split_rest (dropWhile (\<lambda>c. \<not> netloc_delim c) (drop 2 ?url2)) = (p, q, [])"
    unfolding dk by (rule sr)
  from urlsplit_authI[OF ss has ok sr'] show ?thesis
    unfolding tk .
qed

lemma urlunsplit_auth_url:
  assumes "netloc c \<noteq> []" and "fragment c = []" and "path c = [] \<or> hd (path c) = CHR ''/''"
  shows "urlunsplit c = auth_url (scheme c) (netloc c) (path c) (query c)"
  using assms by (cases "path c") (auto simp: urlunsplit_def Let_def auth_url_def)

subsection \<open>Idempotence\<close>

text \<open>
  C7 as stated fails: a query that consists of slashes is emptied by the first
  normalization, and the second one then drops the question mark and the slash of the
  root path.
\<close>

theorem normalize_url_not_idempotent:
  "normalize_url tiny_web ''http://a/?/'' = Inr ''http://a/?'' \<and>
   normalize_url tiny_web ''http://a/?'' = Inr ''http://a'' \<and>
   normalize_url tiny_web ''http://a/?'' \<noteq> Inr ''http://a/?''"
  by code_simp

text \<open>
  C7, for the URLs the crawl keeps. For a URL that \<open>urlsplit\<close> accepts with an
  authority, and whose query is empty or has a character other than the slash, the
  canonical form is its own canonical form.
\<close>

theorem normalize_url_idempotent_with_authority:
  assumes "urlsplit w u [] = Inr r" and "netloc r \<noteq> []"
    and "query r = [] \<or> (\<exists>c\<in>set (query r). c \<noteq> CHR ''/'')"
  shows "\<exists>n. normalize_url w u = Inr n \<and> normalize_url w n = Inr n"
proof -
  note parts = urlsplit_auth_parts[OF assms(1,2)]
  let ?sc = "scheme r" and ?nl = "netloc r" and ?p = "path r" and ?q = "query r"
  have n1: "normalize_url w u = Inr (rstrip_slash (auth_url ?sc ?nl ?p ?q))"
    using normalize_url_auth[OF assms(1,2)] urlunsplit_auth_url[of "r\<lparr>fragment := []\<rparr>"]
      assms(2) parts(4)
    by simp
  define p' where "p' = (if ?q = [] then rstrip_slash ?p else ?p)"
  define q' where "q' = rstrip_slash ?q"
  have last_nl: "last ?nl \<noteq> CHR ''/''"
  proof -
    have "last ?nl \<in> set ?nl" using assms(2) by simp
    then show ?thesis using parts(2) by (auto simp: netloc_delim_def)
  qed
  have rs: "rstrip_slash (auth_url ?sc ?nl ?p ?q) = auth_url ?sc ?nl p' q'"
  proof (cases "?q = []")
    case True
    let ?x = "(if ?sc \<noteq> [] then ?sc @ '':'' else []) @ ''//'' @ ?nl"
    have "?x \<noteq> []" "last ?x \<noteq> CHR ''/''" using assms(2) last_nl by simp_all
    from rstrip_slash_after[OF this, of ?p] show ?thesis
      using True by (simp add: auth_url_def p'_def q'_def rstrip_slash_def)
  next
    case False
    let ?y = "(if ?sc \<noteq> [] then ?sc @ '':'' else []) @ ''//'' @ ?nl @ ?p @ ''?''"
    have "?y \<noteq> []" "last ?y \<noteq> CHR ''/''" by simp_all
    from rstrip_slash_after[OF this, of ?q]
    have "rstrip_slash (?y @ ?q) = ?y @ q'" by (simp add: q'_def)
    moreover have "q' \<noteq> []"
      using assms(3) False by (auto simp: q'_def rstrip_slash_Nil_iff)
    ultimately show ?thesis
      using False by (simp add: auth_url_def p'_def)
  qed
  have sp': "set p' \<subseteq> set ?p" and sq': "set q' \<subseteq> set ?q"
    using set_rstrip_slash[of ?p] set_rstrip_slash[of ?q] by (auto simp: p'_def q'_def)
  have hp: "p' = [] \<or> hd p' = CHR ''/''"
  proof (cases "?q = [] \<and> rstrip_slash ?p \<noteq> []")
    case True
    then have "hd (rstrip_slash ?p) = hd ?p" by (simp add: hd_rstrip_slash)
    moreover have "?p \<noteq> []" using True by (auto simp: rstrip_slash_def)
    ultimately show ?thesis using True parts(4) by (simp add: p'_def)
  next
    case False
    then show ?thesis using parts(4) by (auto simp: p'_def)
  qed
  have sp: "urlsplit w (auth_url ?sc ?nl p' q') [] =
              Inr \<lparr>scheme = ?sc, netloc = ?nl, path = p', query = q', fragment = []\<rparr>"
  proof (rule urlsplit_of_unsplit)
    show "scheme_ok ?sc" by (rule parts(1))
    show "?nl \<noteq> []" by (rule assms(2))
    show "\<forall>c\<in>set ?nl. \<not> netloc_delim c" by (rule parts(2))
    show "netloc_ok w ?nl" by (rule parts(3))
    show "p' = [] \<or> hd p' = CHR ''/''" by (rule hp)
    show "CHR ''?'' \<notin> set p'" "CHR ''#'' \<notin> set p'" using sp' parts(5,6) by auto
    show "CHR ''#'' \<notin> set q'" using sq' parts(7) by auto
    show "\<forall>c\<in>set (?nl @ p' @ q'). \<not> unsafe_url_byte c" using sp' sq' parts(8) by auto
  qed
  have n2: "normalize_url w (auth_url ?sc ?nl p' q') = Inr (rstrip_slash (auth_url ?sc ?nl p' q'))"
    using normalize_url_auth[OF sp] assms(2) hp
      urlunsplit_auth_url[of "\<lparr>scheme = ?sc, netloc = ?nl, path = p', query = q', fragment = []\<rparr>"]
    by simp
  have "rstrip_slash (auth_url ?sc ?nl p' q') = auth_url ?sc ?nl p' q'"
    using rstrip_slash_idem[of "auth_url ?sc ?nl ?p ?q"] rs by simp
  then show ?thesis
    using n1 n2 rs by simp
qed

text \<open>A directory URL of the documentation site.\<close>

theorem normalize_url_idempotent_with_authority_witness:
  "urlsplit tiny_web ''https://x.com/docs/?hl=en#top'' [] =
     Inr \<lparr>scheme = ''https'', netloc = ''x.com'', path = ''/docs/'', query = ''hl=en'',
          fragment = ''top''\<rparr> \<and>
   normalize_url tiny_web ''https://x.com/docs/?hl=en#top'' = Inr ''https://x.com/docs/?hl=en'' \<and>
   normalize_url tiny_web ''https://x.com/docs/?hl=en'' = Inr ''https://x.com/docs/?hl=en''"
proof -
  have s: "urlsplit tiny_web ''https://x.com/docs/?hl=en#top'' [] =
     Inr \<lparr>scheme = ''https'', netloc = ''x.com'', path = ''/docs/'', query = ''hl=en'',
          fragment = ''top''\<rparr>"
    by code_simp
  have n: "netloc \<lparr>scheme = ''https'', netloc = ''x.com'', path = ''/docs/'', query = ''hl=en'',
          fragment = ''top''\<rparr> \<noteq> []"
    by simp
  have q: "query \<lparr>scheme = ''https'', netloc = ''x.com'', path = ''/docs/'', query = ''hl=en'',
          fragment = ''top''\<rparr> = [] \<or>
        (\<exists>c\<in>set (query \<lparr>scheme = ''https'', netloc = ''x.com'', path = ''/docs/'',
            query = ''hl=en'', fragment = ''top''\<rparr>). c \<noteq> CHR ''/'')"
    by simp
  have v: "normalize_url tiny_web ''https://x.com/docs/?hl=en#top'' = Inr ''https://x.com/docs/?hl=en''"
    by code_simp
  show ?thesis
    using normalize_url_idempotent_with_authority[OF s n q] s v by simp
qed

subsection \<open>The history of the frontier\<close>

lemma for_hrefs_enqueued: "\<exists>new. enqueued s (snd (for_hrefs w nb ex cur hrefs s)) new"
proof (rule for_hrefs_preserves[where P="\<lambda>t. \<exists>new. enqueued s t new"])
  show "\<exists>new. enqueued s s new"
    by (rule exI[of _ "[]"]) (simp add: enqueued_def)
next
  fix t a
  assume "\<exists>new. enqueued s t new" and a: "a \<notin> discovered t"
  then obtain new where n: "enqueued s t new" by blast
  have "enqueued s (t\<lparr>discovered := insert a (discovered t), queue := queue t @ [a],
          sink := sink t @ [a @ [CHR 0x0A]]\<rparr>) (new @ [a])"
    using n a by (auto simp: enqueued_def line_of_def)
  then show "\<exists>new. enqueued s (t\<lparr>discovered := insert a (discovered t), queue := queue t @ [a],
          sink := sink t @ [a @ [CHR 0x0A]]\<rparr>) new"
    by blast
qed

lemma crawl_iteration_enqueued:
  "\<exists>new. enqueued (s\<lparr>queue := tl (queue s), visited := insert (hd (queue s)) (visited s)\<rparr>)
            (snd (crawl_iteration w nb ex s)\<lparr>sleeps := sleeps s\<rparr>) new"
proof -
  let ?s2 = "s\<lparr>queue := tl (queue s), visited := insert (hd (queue s)) (visited s)\<rparr>"
  have f: "\<exists>new. enqueued ?s2 (snd (for_hrefs w nb ex c hs ?s2)) new" for c hs
    by (rule for_hrefs_enqueued)
  have e: "enqueued ?s2 t new \<Longrightarrow> enqueued ?s2 (t\<lparr>sleeps := n\<rparr>) new" for t new n
    by (simp add: enqueued_def)
  show ?thesis
  proof (cases rule: crawl_iteration_cases[of w nb ex s])
    case seen
    then have "enqueued ?s2 (snd (crawl_iteration w nb ex s)\<lparr>sleeps := sleeps s\<rparr>) []"
      by (auto simp: enqueued_def insert_absorb)
    then show ?thesis by blast
  next
    case failed
    then have "enqueued ?s2 (snd (crawl_iteration w nb ex s)\<lparr>sleeps := sleeps s\<rparr>) []"
      by (simp add: enqueued_def)
    then show ?thesis by blast
  next
    case (raised e' s3)
    then show ?thesis
      using f[of "hd (queue s)" "collect_hrefs w (fetch_html w (hd (queue s)))"] e by auto
  next
    case (parsed s3)
    then show ?thesis
      using f[of "hd (queue s)" "collect_hrefs w (fetch_html w (hd (queue s)))"] e[of s3]
      by (auto simp: enqueued_def)
  qed
qed

lemma frontier_history_iteration:
  assumes "frontier_history sink0 s us k" and "queue s \<noteq> []"
  shows "\<exists>new. frontier_history sink0 (snd (crawl_iteration w nb ex s)) (us @ new) (Suc k)"
proof -
  let ?s2 = "s\<lparr>queue := tl (queue s), visited := insert (hd (queue s)) (visited s)\<rparr>"
  let ?t = "snd (crawl_iteration w nb ex s)"
  obtain new where n: "enqueued ?s2 (?t\<lparr>sleeps := sleeps s\<rparr>) new"
    using crawl_iteration_enqueued[of s w nb ex] by blast
  have k: "k < length us" using assms by (auto simp: frontier_history_def)
  then have hd: "hd (queue s) = us ! k" and tl: "tl (queue s) = drop (Suc k) us"
    using assms(1) by (simp_all add: frontier_history_def hd_drop_conv_nth drop_Suc tl_drop)
  have tk: "set (take (Suc k) us) = insert (us ! k) (set (take k us))"
    using k by (simp add: take_Suc_conv_app_nth)
  have "frontier_history sink0 ?t (us @ new) (Suc k)"
    using n assms(1) k hd tl tk
    by (auto simp: enqueued_def frontier_history_def)
  then show ?thesis by blast
qed

lemma frontier_history_reaches:
  "crawl_reaches w nb ex s rs \<Longrightarrow> frontier_history sink0 s us k \<Longrightarrow>
   \<exists>new j. frontier_history sink0 (snd rs) (us @ new) (k + j)"
proof (induction rule: crawl_reaches.induct)
  case start
  then have "frontier_history sink0 s (us @ []) (k + 0)" by simp
  then show ?case by (metis snd_conv)
next
  case (pass s1)
  then obtain new j where h: "frontier_history sink0 s1 (us @ new) (k + j)" by auto
  from frontier_history_iteration[OF h pass.hyps(2), of w nb ex]
  obtain new' where
    "frontier_history sink0 (snd (crawl_iteration w nb ex s1)) ((us @ new) @ new') (Suc (k + j))"
    by blast
  then have "frontier_history sink0 (snd (crawl_iteration w nb ex s1)) (us @ (new @ new')) (k + Suc j)"
    by simp
  then show ?case by blast
qed

lemma frontier_history_seed:
  assumes "crawl_seed w start base ex sink0 = Inr (nb, s0)"
  shows "\<exists>u. frontier_history sink0 s0 [u] 0"
proof -
  from assms obtain u where
    "s0 = (initial_state sink0)\<lparr>queue := [u], discovered := {u}, sink := sink0 @ [u @ [CHR 0x0A]]\<rparr>"
    by (auto simp: crawl_seed_def split: sum.splits if_splits)
  then have "frontier_history sink0 s0 [u] 0"
    by (simp add: frontier_history_def initial_state_def line_of_def)
  then show ?thesis by blast
qed

text \<open>
  C1. In every state that the loop reaches after the seed, the URLs enqueued so far
  form a list without repetition: the sink holds (after what it held before the crawl)
  one line for each of them, in the order of enqueueing; they are the discovered set;
  the queue is what is left of the list after the dequeued ones, and the dequeued ones
  are the visited set. So no URL is on the frontier twice, at the same moment or at
  different moments, none has two lines, and no URL of the queue has been visited. The discovered set has not lost a member
  since any earlier state. The processing of any single href either leaves the state
  as it is or enqueues and writes one URL that was not yet discovered. A further pass
  takes the first URL from the queue, which was not visited before, and appends to the
  queue and to the sink only URLs that were not discovered, each once.
\<close>

theorem crawl_never_repeats_a_url:
  assumes "crawl_seed w start_url base_prefix excludes sink0 = Inr (nb, s0)"
    and "crawl_reaches w nb excludes s0 (None, s1)"
    and "crawl_reaches w nb excludes s1 (r, s2)"
  shows "distinct (queue s2) \<and> set (queue s2) \<subseteq> discovered s2 \<and>
         (\<exists>us k. sink s2 = sink0 @ map line_of us \<and> distinct us \<and> set us = discovered s2 \<and>
            queue s2 = drop k us \<and> visited s2 = set (take k us)) \<and>
         set (queue s2) \<inter> visited s2 = {} \<and>
         discovered s1 \<subseteq> discovered s2 \<and>
         (\<forall>cur href. snd (for_hrefs w nb excludes cur [href] s2) = s2 \<or>
            (\<exists>a. a \<notin> discovered s2 \<and>
               snd (for_hrefs w nb excludes cur [href] s2) =
                 s2\<lparr>discovered := insert a (discovered s2), queue := queue s2 @ [a],
                    sink := sink s2 @ [line_of a]\<rparr>)) \<and>
         (queue s2 \<noteq> [] \<longrightarrow>
            hd (queue s2) \<notin> visited s2 \<and>
            (\<exists>new. queue (snd (crawl_iteration w nb excludes s2)) = tl (queue s2) @ new \<and>
               sink (snd (crawl_iteration w nb excludes s2)) = sink s2 @ map line_of new \<and>
               discovered (snd (crawl_iteration w nb excludes s2)) = discovered s2 \<union> set new \<and>
               distinct new \<and> set new \<inter> discovered s2 = {} \<and>
               visited (snd (crawl_iteration w nb excludes s2)) =
                 insert (hd (queue s2)) (visited s2)))"
proof -
  have reach: "crawl_reaches w nb excludes s0 (r, s2)"
    using crawl_reaches_trans[OF assms(3) assms(2)] .
  obtain u where "frontier_history sink0 s0 [u] 0"
    using frontier_history_seed[OF assms(1)] by blast
  from frontier_history_reaches[OF reach this]
  obtain us k where h: "frontier_history sink0 s2 us k" by auto
  have inv: "crawl_inv sink0 s2"
    using crawl_inv_reaches[OF reach, of sink0] crawl_inv_seed[OF assms(1)] by simp
  have mono: "discovered s1 \<subseteq> discovered s2"
    using grows_reaches[OF assms(3)] by (simp add: grows_def)
  have "set (take k us) \<inter> set (drop k us) = {}"
    using h by (intro set_take_disj_set_drop_if_distinct) (simp_all add: frontier_history_def)
  then have disj: "set (queue s2) \<inter> visited s2 = {}"
    using h by (auto simp: frontier_history_def)
  have hist: "\<exists>us k. sink s2 = sink0 @ map line_of us \<and> distinct us \<and> set us = discovered s2 \<and>
            queue s2 = drop k us \<and> visited s2 = set (take k us)"
    using h unfolding frontier_history_def by blast
  have step: "hd (queue s2) \<notin> visited s2 \<and>
            (\<exists>new. queue (snd (crawl_iteration w nb excludes s2)) = tl (queue s2) @ new \<and>
               sink (snd (crawl_iteration w nb excludes s2)) = sink s2 @ map line_of new \<and>
               discovered (snd (crawl_iteration w nb excludes s2)) = discovered s2 \<union> set new \<and>
               distinct new \<and> set new \<inter> discovered s2 = {} \<and>
               visited (snd (crawl_iteration w nb excludes s2)) =
                 insert (hd (queue s2)) (visited s2))" if q: "queue s2 \<noteq> []"
  proof
    have k: "k < length us" using h q by (auto simp: frontier_history_def)
    then have "hd (queue s2) = us ! k"
      using h by (simp add: frontier_history_def hd_drop_conv_nth)
    moreover have "us ! k \<notin> set (take k us)"
      using h k by (auto simp: frontier_history_def in_set_conv_nth nth_eq_iff_index_eq)
    ultimately show "hd (queue s2) \<notin> visited s2"
      using h by (simp add: frontier_history_def)
    obtain new where
      "enqueued (s2\<lparr>queue := tl (queue s2), visited := insert (hd (queue s2)) (visited s2)\<rparr>)
         (snd (crawl_iteration w nb excludes s2)\<lparr>sleeps := sleeps s2\<rparr>) new"
      using crawl_iteration_enqueued[of s2 w nb excludes] by blast
    then show "\<exists>new. queue (snd (crawl_iteration w nb excludes s2)) = tl (queue s2) @ new \<and>
               sink (snd (crawl_iteration w nb excludes s2)) = sink s2 @ map line_of new \<and>
               discovered (snd (crawl_iteration w nb excludes s2)) = discovered s2 \<union> set new \<and>
               distinct new \<and> set new \<inter> discovered s2 = {} \<and>
               visited (snd (crawl_iteration w nb excludes s2)) =
                 insert (hd (queue s2)) (visited s2)"
      by (intro exI[of _ new]) (simp add: enqueued_def)
  qed
  show ?thesis
    using inv mono disj hist step for_hrefs_single[of w nb excludes _ _ s2]
    by (simp add: crawl_inv_def)
qed

text \<open>
  On the small site: after the pass over the root the history is the root, \<open>a\<close> and
  \<open>b\<close>, of which the root has been dequeued. That pass enqueued \<open>a\<close> and \<open>b\<close>,
  both new; the next pass, over \<open>a\<close>, enqueues nothing.
\<close>

theorem crawl_never_repeats_a_url_witness:
  "crawl_seed tiny_web ''http://h/d/'' ''http://h/d'' [] [] = Inr (''http://h/d'', tiny_seeded) \<and>
   crawl_reaches tiny_web ''http://h/d'' [] tiny_seeded (None, tiny_seeded) \<and>
   crawl_reaches tiny_web ''http://h/d'' [] tiny_seeded (None, tiny_after_root) \<and>
   distinct (queue tiny_after_root) \<and> set (queue tiny_after_root) \<subseteq> discovered tiny_after_root \<and>
   (\<exists>us k. sink tiny_after_root = [] @ map line_of us \<and> distinct us \<and>
      set us = discovered tiny_after_root \<and> queue tiny_after_root = drop k us \<and>
      visited tiny_after_root = set (take k us)) \<and>
   sink tiny_after_root = map line_of [''http://h/d'', ''http://h/d/a'', ''http://h/d/b''] \<and>
   queue tiny_after_root = drop 1 [''http://h/d'', ''http://h/d/a'', ''http://h/d/b''] \<and>
   visited tiny_after_root = set (take 1 [''http://h/d'', ''http://h/d/a'', ''http://h/d/b'']) \<and>
   discovered tiny_seeded \<subseteq> discovered tiny_after_root \<and>
   set (queue tiny_after_root) \<inter> visited tiny_after_root = {} \<and>
   queue tiny_after_root \<noteq> [] \<and> hd (queue tiny_after_root) \<notin> visited tiny_after_root \<and>
   snd (crawl_iteration tiny_web ''http://h/d'' [] tiny_after_root) = tiny_after_a \<and>
   queue tiny_after_a = tl (queue tiny_after_root) @ [] \<and>
   snd (crawl_iteration tiny_web ''http://h/d'' [] tiny_seeded) = tiny_after_root \<and>
   queue tiny_after_root = tl (queue tiny_seeded) @ [''http://h/d/a'', ''http://h/d/b''] \<and>
   sink tiny_after_root = sink tiny_seeded @ map line_of [''http://h/d/a'', ''http://h/d/b''] \<and>
   set [''http://h/d/a'', ''http://h/d/b''] \<inter> discovered tiny_seeded = {}"
proof -
  have q: "queue tiny_seeded \<noteq> []" by (simp add: tiny_seeded_def)
  have r0: "crawl_reaches tiny_web ''http://h/d'' [] tiny_seeded (None, tiny_seeded)"
    by (rule crawl_reaches.start)
  have r1: "crawl_reaches tiny_web ''http://h/d'' [] tiny_seeded (None, tiny_after_root)"
    using crawl_reaches.pass[OF r0 q] by (simp add: tiny_pass1)
  have q1: "queue tiny_after_root \<noteq> []" by (simp add: tiny_after_root_def)
  from crawl_never_repeats_a_url[OF tiny_seed r0 r1] q1
  have t: "distinct (queue tiny_after_root) \<and> set (queue tiny_after_root) \<subseteq> discovered tiny_after_root \<and>
     (\<exists>us k. sink tiny_after_root = [] @ map line_of us \<and> distinct us \<and>
        set us = discovered tiny_after_root \<and> queue tiny_after_root = drop k us \<and>
        visited tiny_after_root = set (take k us)) \<and>
     discovered tiny_seeded \<subseteq> discovered tiny_after_root \<and>
     set (queue tiny_after_root) \<inter> visited tiny_after_root = {} \<and>
     hd (queue tiny_after_root) \<notin> visited tiny_after_root"
    by blast
  have e: "sink tiny_after_root = map line_of [''http://h/d'', ''http://h/d/a'', ''http://h/d/b''] \<and>
     queue tiny_after_root = drop 1 [''http://h/d'', ''http://h/d/a'', ''http://h/d/b''] \<and>
     visited tiny_after_root = set (take 1 [''http://h/d'', ''http://h/d/a'', ''http://h/d/b'']) \<and>
     queue tiny_after_a = tl (queue tiny_after_root) @ [] \<and>
     queue tiny_after_root = tl (queue tiny_seeded) @ [''http://h/d/a'', ''http://h/d/b''] \<and>
     sink tiny_after_root = sink tiny_seeded @ map line_of [''http://h/d/a'', ''http://h/d/b''] \<and>
     set [''http://h/d/a'', ''http://h/d/b''] \<inter> discovered tiny_seeded = {}"
    by (simp add: tiny_after_root_def tiny_after_a_def tiny_seeded_def)
  have p0: "snd (crawl_iteration tiny_web ''http://h/d'' [] tiny_seeded) = tiny_after_root"
    by (simp add: tiny_pass1)
  have p1: "snd (crawl_iteration tiny_web ''http://h/d'' [] tiny_after_root) = tiny_after_a"
    by (simp add: tiny_pass2)
  show ?thesis
    using t e tiny_seed r0 r1 q1 p0 p1 by blast
qed

subsection \<open>Trailing slashes, for every URL with an authority\<close>

text \<open>
  C10, for the URLs the crawl keeps. The canonical form of a URL with an authority is
  the rebuilt URL without any of its trailing slashes, so it never ends with a slash:
  every trailing slash goes, not just one. If moreover the URL has a query that is not
  empty, or has no question mark, or has a fragment marker, it gets the same canonical
  form with any number of slashes appended.
\<close>

theorem trailing_slashes_collapse:
  assumes "urlsplit w u [] = Inr r" and "netloc r \<noteq> []"
  shows "(\<exists>n. normalize_url w u = Inr n \<and> n = rstrip_slash (urlunsplit (r\<lparr>fragment := []\<rparr>)) \<and>
              \<not> endswith n ''/'') \<and>
         (query r \<noteq> [] \<or> CHR ''?'' \<notin> set u \<or> CHR ''#'' \<in> set u \<longrightarrow>
            normalize_url w (u @ replicate k CHR ''/'') = normalize_url w u)"
proof
  let ?s = "replicate k CHR ''/''"
  let ?r' = "if CHR ''#'' \<in> set u then r\<lparr>fragment := fragment r @ ?s\<rparr>
             else if CHR ''?'' \<in> set u then r\<lparr>query := query r @ ?s\<rparr>
             else r\<lparr>path := path r @ ?s\<rparr>"
  let ?c = "r\<lparr>fragment := []\<rparr>"
  have n1: "normalize_url w u = Inr (rstrip_slash (urlunsplit ?c))"
    by (rule normalize_url_auth[OF assms(1,2)])
  then show "\<exists>n. normalize_url w u = Inr n \<and> n = rstrip_slash (urlunsplit ?c) \<and> \<not> endswith n ''/''"
    using rstrip_slash_no_slash[of "urlunsplit ?c"] by simp
  show "query r \<noteq> [] \<or> CHR ''?'' \<notin> set u \<or> CHR ''#'' \<in> set u \<longrightarrow>
          normalize_url w (u @ ?s) = normalize_url w u"
  proof
    assume h: "query r \<noteq> [] \<or> CHR ''?'' \<notin> set u \<or> CHR ''#'' \<in> set u"
    have sp: "urlsplit w (u @ ?s) [] = Inr ?r'"
      by (rule urlsplit_append_slashes[OF assms(1,2)])
    have nl': "netloc ?r' \<noteq> []" using assms(2) by simp
    have n2: "normalize_url w (u @ ?s) = Inr (rstrip_slash (urlunsplit (?r'\<lparr>fragment := []\<rparr>)))"
      by (rule normalize_url_auth[OF sp nl'])
    have c: "netloc ?c \<noteq> []" "fragment ?c = []" using assms(2) by simp_all
    have "rstrip_slash (urlunsplit (?r'\<lparr>fragment := []\<rparr>)) = rstrip_slash (urlunsplit ?c)"
    proof (cases "CHR ''#'' \<in> set u")
      case True
      then show ?thesis by simp
    next
      case False
      show ?thesis
      proof (cases "CHR ''?'' \<in> set u")
        case True
        then have q: "query ?c \<noteq> []" using h False by simp
        have "?r'\<lparr>fragment := []\<rparr> = ?c\<lparr>query := query ?c @ ?s\<rparr>"
          using True False by simp
        then show ?thesis
          using urlunsplit_query_append[OF c q, of ?s] by (simp add: rstrip_slash_replicate)
      next
        case q: False
        then have e: "query ?c = []"
          using query_empty_without_marker[OF assms(1,2)] by simp
        have "?r'\<lparr>fragment := []\<rparr> = ?c\<lparr>path := path ?c @ ?s\<rparr>"
          using q False by simp
        then show ?thesis
          using urlunsplit_path_append[OF c e, of k] by (simp add: rstrip_slash_replicate)
      qed
    qed
    then show "normalize_url w (u @ ?s) = normalize_url w u"
      using n1 n2 by simp
  qed
qed

text \<open>
  The example of the claim: three trailing slashes go. A URL with a slash before a bare
  question mark loses the slash as well.
\<close>

theorem trailing_slashes_collapse_witness:
  "urlsplit tiny_web ''https://x.com/a'' [] =
     Inr \<lparr>scheme = ''https'', netloc = ''x.com'', path = ''/a'', query = [], fragment = []\<rparr> \<and>
   CHR ''?'' \<notin> set ''https://x.com/a'' \<and>
   normalize_url tiny_web (''https://x.com/a'' @ replicate 3 CHR ''/'') = Inr ''https://x.com/a'' \<and>
   normalize_url tiny_web ''https://x.com/a'' = Inr ''https://x.com/a'' \<and>
   \<not> endswith ''https://x.com/a'' ''/'' \<and>
   urlsplit tiny_web ''http://a/b/?'' [] =
     Inr \<lparr>scheme = ''http'', netloc = ''a'', path = ''/b/'', query = [], fragment = []\<rparr> \<and>
   normalize_url tiny_web ''http://a/b/?'' = Inr ''http://a/b'' \<and>
   \<not> endswith ''http://a/b'' ''/''"
proof -
  have s: "urlsplit tiny_web ''https://x.com/a'' [] =
     Inr \<lparr>scheme = ''https'', netloc = ''x.com'', path = ''/a'', query = [], fragment = []\<rparr>"
    by code_simp
  have n: "netloc \<lparr>scheme = ''https'', netloc = ''x.com'', path = ''/a'', query = [],
             fragment = []\<rparr> \<noteq> []"
    by simp
  have q: "CHR ''?'' \<notin> set ''https://x.com/a''" by simp
  have v: "normalize_url tiny_web ''https://x.com/a'' = Inr ''https://x.com/a''" by code_simp
  have s2: "urlsplit tiny_web ''http://a/b/?'' [] =
     Inr \<lparr>scheme = ''http'', netloc = ''a'', path = ''/b/'', query = [], fragment = []\<rparr>"
    by code_simp
  have n2: "netloc \<lparr>scheme = ''http'', netloc = ''a'', path = ''/b/'', query = [],
             fragment = []\<rparr> \<noteq> []"
    by simp
  have v2: "normalize_url tiny_web ''http://a/b/?'' = Inr ''http://a/b''" by code_simp
  note t = trailing_slashes_collapse[OF s n, of 3]
  from t q have e1: "normalize_url tiny_web (''https://x.com/a'' @ replicate 3 CHR ''/'') =
      normalize_url tiny_web ''https://x.com/a''"
    by blast
  have a: "normalize_url tiny_web (''https://x.com/a'' @ replicate 3 CHR ''/'') = Inr ''https://x.com/a''"
    using e1 unfolding v .
  have b: "\<not> endswith ''https://x.com/a'' ''/'' \<and> \<not> endswith ''http://a/b'' ''/''"
    by (simp add: endswith_def)
  show ?thesis
    using a b s q v s2 v2 by blast
qed

subsection \<open>The combine tool\<close>

lemma path_append_le: "(root @ a \<le> root @ b) = (a \<le> (b :: path))"
proof -
  have "irrefl {(u :: string, v). u < v}" by (auto simp: irrefl_def)
  then show ?thesis
    by (simp add: list_le_def list_less_def lexord_same_pref_if_irrefl)
qed

lemma insort_below_root:
  "insort (root @ x) (map (\<lambda>rel. root @ rel) ys) = map (\<lambda>rel. root @ rel) (insort x (ys :: path list))"
  by (induction ys) (simp_all add: path_append_le)

lemma sort_below_root:
  "sort (map (\<lambda>rel. root @ rel) rels) = map (\<lambda>rel. root @ rel) (sort (rels :: path list))"
  by (induction rels) (simp_all add: insort_below_root)

lemma combine_loop_below_root:
  assumes "\<forall>rel \<in> set rels. root @ rel \<noteq> output_path \<longrightarrow> read_text fs (root @ rel) = Some (content rel)"
  shows "combine_loop fs root output_path (map (\<lambda>rel. root @ rel) rels) acc =
         Inr (fst acc @
              concat (map (\<lambda>rel. ''# Source: '' @ join_sep CHR ''/'' rel @ [CHR 0x0A] @ content rel @
                                  [CHR 0x0A, CHR 0x0A])
                        (filter (\<lambda>rel. root @ rel \<noteq> output_path) rels)),
              snd acc + length (filter (\<lambda>rel. root @ rel \<noteq> output_path) rels))"
  using assms
proof (induction rels arbitrary: acc)
  case Nil
  then show ?case by simp
next
  case (Cons rel rels)
  then show ?case by (simp add: relative_to_def)
qed

text \<open>
  C9 as stated fails. The output file is recognised by the equality of the two paths
  as they are written, not by its place: with the input directory given relative to the
  working directory and the output file given from the root, the output file lies
  inside the input directory, is gathered, and gets a section of its own.
\<close>

theorem output_file_inside_not_skipped:
  "lies_inside [''/'', ''srv''] [''/'', ''srv'', ''pages'', ''all.txt''] [''pages''] \<and>
   absolute [''/'', ''srv''] [''pages'', ''all.txt''] =
     absolute [''/'', ''srv''] [''/'', ''srv'', ''pages'', ''all.txt''] \<and>
   gather_text_files pages_fs [''pages''] =
     [[''pages'', ''a.txt''], [''pages'', ''all.txt''], [''pages'', ''sub'', ''b.txt'']] \<and>
   combine_main pages_fs [''pages''] [''/'', ''srv'', ''pages'', ''all.txt''] =
     Inr (''# Source: a.txt'' @ [CHR 0x0A] @ ''X'' @ [CHR 0x0A, CHR 0x0A] @
          ''# Source: all.txt'' @ [CHR 0x0A] @ [] @ [CHR 0x0A, CHR 0x0A] @
          ''# Source: sub/b.txt'' @ [CHR 0x0A] @ ''Y'' @ [CHR 0x0A, CHR 0x0A], 3)"
  by code_simp

text \<open>
  C9, as the code has it. When the input directory exists and every gathered file
  other than the output path can be read, the output is, for the paths that
  \<open>rglob\<close> yields below the input directory, in sorted order and without those that
  are equal to the output path as it is written: the marker line with the path
  relative to the input directory, the content of the file and a blank line. The count
  is the number of these files.
\<close>

theorem combine_main_output:
  assumes "fs_exists fs root"
    and "\<forall>rel \<in> set (rglob_txt fs root).
           root @ rel \<noteq> output_path \<longrightarrow> read_text fs (root @ rel) = Some (content rel)"
  shows "combine_main fs root output_path =
         Inr (concat (map (\<lambda>rel. ''# Source: '' @ join_sep CHR ''/'' rel @ [CHR 0x0A] @ content rel @
                                  [CHR 0x0A, CHR 0x0A])
                        (filter (\<lambda>rel. root @ rel \<noteq> output_path) (sort (rglob_txt fs root)))),
              length (filter (\<lambda>rel. root @ rel \<noteq> output_path) (sort (rglob_txt fs root))))"
proof -
  have "\<forall>rel \<in> set (sort (rglob_txt fs root)).
           root @ rel \<noteq> output_path \<longrightarrow> read_text fs (root @ rel) = Some (content rel)"
    using assms(2) by simp
  from combine_loop_below_root[OF this, of "([], 0)"] show ?thesis
    using assms(1) by (simp add: combine_main_def gather_text_files_def sort_below_root)
qed

text \<open>
  The example of the specification, two directories deep: the output file, named
  through the input directory, is left out, and the markers carry the paths below the
  input directory.
\<close>

theorem combine_main_output_witness:
  "fs_exists nested_fs [''data'', ''pages''] \<and>
   rglob_txt nested_fs [''data'', ''pages''] = [[''sub'', ''b.txt''], [''all.txt''], [''a.txt'']] \<and>
   read_text nested_fs [''data'', ''pages'', ''sub'', ''b.txt''] = Some ''Y'' \<and>
   read_text nested_fs [''data'', ''pages'', ''a.txt''] = Some ''X'' \<and>
   sort (rglob_txt nested_fs [''data'', ''pages'']) = [[''a.txt''], [''all.txt''], [''sub'', ''b.txt'']] \<and>
   combine_main nested_fs [''data'', ''pages''] [''data'', ''pages'', ''all.txt''] =
     Inr (''# Source: a.txt'' @ [CHR 0x0A] @ ''X'' @ [CHR 0x0A, CHR 0x0A] @
          ''# Source: sub/b.txt'' @ [CHR 0x0A] @ ''Y'' @ [CHR 0x0A, CHR 0x0A], 2)"
proof -
  let ?content = "\<lambda>rel. if rel = [''a.txt''] then ''X'' else ''Y''"
  have e: "fs_exists nested_fs [''data'', ''pages'']" by (simp add: nested_fs_def)
  have r: "\<forall>rel \<in> set (rglob_txt nested_fs [''data'', ''pages'']).
      [''data'', ''pages''] @ rel \<noteq> [''data'', ''pages'', ''all.txt''] \<longrightarrow>
      read_text nested_fs ([''data'', ''pages''] @ rel) = Some (?content rel)"
    by (simp add: nested_fs_def)
  have l: "rglob_txt nested_fs [''data'', ''pages''] = [[''sub'', ''b.txt''], [''all.txt''], [''a.txt'']] \<and>
     read_text nested_fs [''data'', ''pages'', ''sub'', ''b.txt''] = Some ''Y'' \<and>
     read_text nested_fs [''data'', ''pages'', ''a.txt''] = Some ''X''"
    by (simp add: nested_fs_def)
  have s: "sort (rglob_txt nested_fs [''data'', ''pages'']) =
           [[''a.txt''], [''all.txt''], [''sub'', ''b.txt'']]"
    by code_simp
  have m: "combine_main nested_fs [''data'', ''pages''] [''data'', ''pages'', ''all.txt''] =
     Inr (''# Source: a.txt'' @ [CHR 0x0A] @ ''X'' @ [CHR 0x0A, CHR 0x0A] @
          ''# Source: sub/b.txt'' @ [CHR 0x0A] @ ''Y'' @ [CHR 0x0A, CHR 0x0A], 2)"
    unfolding combine_main_output[OF e r] s by simp
  show ?thesis
    using e l s m by blast
qed

subsection \<open>Breadth-first order\<close>

lemma for_hrefs_Cons:
  "for_hrefs w nb ex cur (href # hrefs) s =
     (case link_target w nb ex cur href of
        Inl e \<Rightarrow> (Some e, s)
      | Inr None \<Rightarrow> for_hrefs w nb ex cur hrefs s
      | Inr (Some a) \<Rightarrow>
          if a \<notin> discovered s
          then for_hrefs w nb ex cur hrefs
                 (s\<lparr>discovered := insert a (discovered s), queue := queue s @ [a],
                    sink := sink s @ [a @ [CHR 0x0A]]\<rparr>)
          else for_hrefs w nb ex cur hrefs s)"
  by (simp add: link_target_def split: sum.splits)

lemma for_hrefs_targets:
  assumes "for_hrefs w nb ex cur hrefs s = (None, t)"
  shows "\<exists>new. enqueued s t new \<and>
           set new = {v. \<exists>href \<in> set hrefs. link_target w nb ex cur href = Inr (Some v)} - discovered s"
  using assms
proof (induction hrefs arbitrary: s)
  case Nil
  then have "enqueued s t []" by (simp add: enqueued_def)
  then show ?case by (intro exI[of _ "[]"]) simp
next
  case (Cons href hrefs)
  show ?case
  proof (cases "link_target w nb ex cur href")
    case (Inl e)
    then show ?thesis using Cons.prems by (simp add: for_hrefs_Cons del: for_hrefs.simps)
  next
    case (Inr tgt)
    show ?thesis
    proof (cases tgt)
      case None
      then have "for_hrefs w nb ex cur hrefs s = (None, t)"
        using Cons.prems Inr by (simp add: for_hrefs_Cons del: for_hrefs.simps)
      from Cons.IH[OF this] obtain new where
        n: "enqueued s t new"
        "set new = {v. \<exists>href \<in> set hrefs. link_target w nb ex cur href = Inr (Some v)} - discovered s"
        by blast
      have "{v. \<exists>h \<in> set (href # hrefs). link_target w nb ex cur h = Inr (Some v)} =
            {v. \<exists>h \<in> set hrefs. link_target w nb ex cur h = Inr (Some v)}"
        using Inr None by auto
      then show ?thesis using n by auto
    next
      case (Some a)
      have S: "{v. \<exists>h \<in> set (href # hrefs). link_target w nb ex cur h = Inr (Some v)} =
            insert a {v. \<exists>h \<in> set hrefs. link_target w nb ex cur h = Inr (Some v)}"
        using Inr Some by auto
      show ?thesis
      proof (cases "a \<in> discovered s")
        case True
        then have "for_hrefs w nb ex cur hrefs s = (None, t)"
          using Cons.prems Inr Some by (simp add: for_hrefs_Cons del: for_hrefs.simps)
        from Cons.IH[OF this] obtain new where
          n: "enqueued s t new"
          "set new = {v. \<exists>href \<in> set hrefs. link_target w nb ex cur href = Inr (Some v)} - discovered s"
          by blast
        have "set new = {v. \<exists>h \<in> set (href # hrefs). link_target w nb ex cur h = Inr (Some v)} - discovered s"
          unfolding S n(2) using True by auto
        then show ?thesis using n(1) by blast
      next
        case False
        let ?s' = "s\<lparr>discovered := insert a (discovered s), queue := queue s @ [a],
                    sink := sink s @ [a @ [CHR 0x0A]]\<rparr>"
        have "for_hrefs w nb ex cur hrefs ?s' = (None, t)"
          using Cons.prems Inr Some False by (simp add: for_hrefs_Cons del: for_hrefs.simps)
        from Cons.IH[OF this] obtain new where
          n: "enqueued ?s' t new"
          "set new = {v. \<exists>href \<in> set hrefs. link_target w nb ex cur href = Inr (Some v)} - discovered ?s'"
          by blast
        have e: "enqueued s t (a # new)"
          using n(1) False by (auto simp: enqueued_def line_of_def)
        have "set (a # new) = {v. \<exists>h \<in> set (href # hrefs). link_target w nb ex cur h = Inr (Some v)} - discovered s"
          unfolding S using n(2) False by auto
        then show ?thesis using e by blast
      qed
    qed
  qed
qed

lemma walk_depth_of: "reached w nb ex seed v \<Longrightarrow> walk w nb ex seed (depth_of w nb ex seed v) v"
  unfolding reached_def depth_of_def by (erule exE) (rule LeastI)

lemma depth_of_le: "walk w nb ex seed n v \<Longrightarrow> depth_of w nb ex seed v \<le> n"
  unfolding depth_of_def by (rule Least_le)

lemma depth_is_iff:
  "depth_is w nb ex seed v n \<longleftrightarrow> reached w nb ex seed v \<and> n = depth_of w nb ex seed v"
proof
  assume d: "depth_is w nb ex seed v n"
  then have w: "walk w nb ex seed n v" by (simp add: depth_is_def)
  then have "depth_of w nb ex seed v \<le> n" by (rule depth_of_le)
  moreover have "\<not> depth_of w nb ex seed v < n"
    using d walk_depth_of[of w nb ex seed v] w by (auto simp: depth_is_def reached_def)
  ultimately show "reached w nb ex seed v \<and> n = depth_of w nb ex seed v"
    using w by (auto simp: reached_def)
next
  assume r: "reached w nb ex seed v \<and> n = depth_of w nb ex seed v"
  then have "walk w nb ex seed n v" using walk_depth_of by simp
  moreover have "\<not> walk w nb ex seed m v" if "m < n" for m
    using that r depth_of_le[of w nb ex seed m v] by auto
  ultimately show "depth_is w nb ex seed v n" by (simp add: depth_is_def)
qed

lemma walk_0: "walk w nb ex seed 0 v \<Longrightarrow> v = seed"
  by (erule walk.cases) simp_all

lemma reached_seed: "reached w nb ex seed seed" "depth_of w nb ex seed seed = 0"
  using walk.start[of w nb ex seed] depth_of_le[of w nb ex seed 0 seed]
  by (auto simp: reached_def)

lemma reached_child:
  assumes "reached w nb ex seed u" and "edge w nb ex u v"
  shows "reached w nb ex seed v" and "depth_of w nb ex seed v \<le> Suc (depth_of w nb ex seed u)"
proof -
  have "walk w nb ex seed (Suc (depth_of w nb ex seed u)) v"
    using walk.step[OF walk_depth_of[OF assms(1)] assms(2)] .
  then show "reached w nb ex seed v" "depth_of w nb ex seed v \<le> Suc (depth_of w nb ex seed u)"
    by (auto simp: reached_def intro: depth_of_le)
qed

lemma reached_parent:
  assumes "reached w nb ex seed v" and "depth_of w nb ex seed v = Suc a"
  shows "\<exists>p. reached w nb ex seed p \<and> depth_of w nb ex seed p = a \<and> edge w nb ex p v"
proof -
  have "walk w nb ex seed (Suc a) v" using walk_depth_of[OF assms(1)] assms(2) by simp
  then obtain p where p: "walk w nb ex seed a p" "edge w nb ex p v"
    by (cases rule: walk.cases) auto
  then have r: "reached w nb ex seed p" by (auto simp: reached_def)
  have le: "depth_of w nb ex seed p \<le> a" using p(1) by (rule depth_of_le)
  have "Suc a \<le> Suc (depth_of w nb ex seed p)"
    using reached_child(2)[OF r p(2)] assms(2) by simp
  then have "depth_of w nb ex seed p = a" using le by simp
  then show ?thesis using r p(2) by blast
qed

lemma bfs_order_init: "bfs_order w nb ex seed [seed] 0"
proof -
  have "v = seed" if "reached w nb ex seed v" "depth_of w nb ex seed v \<le> depth_of w nb ex seed seed" for v
  proof -
    have "depth_of w nb ex seed v = 0" using that(2) by (simp add: reached_seed)
    then have "walk w nb ex seed 0 v" using walk_depth_of[OF that(1)] by simp
    then show ?thesis by (rule walk_0)
  qed
  then show ?thesis
    by (auto simp: bfs_order_def reached_seed)
qed

lemma bfs_order_step:
  assumes inv: "bfs_order w nb ex seed us k" and k: "k < length us"
    and dist: "distinct (us @ new)"
    and new: "set new = {v. edge w nb ex (us ! k) v} - set us"
  shows "bfs_order w nb ex seed (us @ new) (Suc k)"
proof -
  let ?R = "reached w nb ex seed" and ?D = "depth_of w nb ex seed"
  let ?a = "?D (us ! k)"
  have I2: "\<And>v. v \<in> set us \<Longrightarrow> ?R v"
    and I3: "\<And>i j. i \<le> j \<Longrightarrow> j < length us \<Longrightarrow> ?D (us ! i) \<le> ?D (us ! j)"
    and I4: "\<And>i v. i < k \<Longrightarrow> edge w nb ex (us ! i) v \<Longrightarrow> v \<in> set us"
    and I5: "?D (last us) \<le> Suc ?a"
    and I6: "\<And>v. ?R v \<Longrightarrow> ?D v \<le> ?a \<Longrightarrow> v \<in> set us"
    using inv k unfolding bfs_order_def by blast+
  have cur: "?R (us ! k)" using I2 k by simp
  have ne: "us \<noteq> []" using k by auto
  have A: "?R v \<and> ?D v = Suc ?a" if "v \<in> set new" for v
  proof -
    have e: "edge w nb ex (us ! k) v" and n: "v \<notin> set us" using that new by auto
    have r: "?R v" and le: "?D v \<le> Suc ?a" using reached_child[OF cur e] by auto
    have "\<not> ?D v \<le> ?a" using I6[OF r] n by auto
    then show ?thesis using r le by simp
  qed
  have last_le: "?D (us ! i) \<le> Suc ?a" if "i < length us" for i
  proof -
    have "?D (us ! i) \<le> ?D (us ! (length us - 1))"
      using that by (intro I3) auto
    also have "us ! (length us - 1) = last us" using ne by (simp add: last_conv_nth)
    finally show ?thesis using I5 by simp
  qed
  have nth_new: "(us @ new) ! j \<in> set new" if "length us \<le> j" "j < length (us @ new)" for j
    using that by (simp add: nth_append)
  have S: "?D ((us @ new) ! i) \<le> ?D ((us @ new) ! j)" if "i \<le> j" "j < length (us @ new)" for i j
  proof (cases "j < length us")
    case True
    then show ?thesis using that I3[of i j] by (simp add: nth_append)
  next
    case False
    then have dj: "?D ((us @ new) ! j) = Suc ?a" using A nth_new[of j] that(2) by simp
    show ?thesis
    proof (cases "i < length us")
      case True
      then show ?thesis using last_le[of i] dj by (simp add: nth_append)
    next
      case False
      then have "?D ((us @ new) ! i) = Suc ?a" using A nth_new[of i] that by simp
      then show ?thesis using dj by simp
    qed
  qed
  have C: "v \<in> set (us @ new)" if "i < Suc k" "edge w nb ex ((us @ new) ! i) v" for i v
  proof (cases "i < k")
    case True
    then show ?thesis using that(2) k I4[of i v] by (simp add: nth_append)
  next
    case False
    then have "i = k" using that(1) by simp
    then have "edge w nb ex (us ! k) v" using that(2) k by (simp add: nth_append)
    then show ?thesis using new by auto
  qed
  have lower: "?a \<le> ?D ((us @ new) ! Suc k)" if "Suc k < length (us @ new)"
    using S[of k "Suc k"] that k by (simp add: nth_append)
  have upper: "?D ((us @ new) ! Suc k) \<le> Suc ?a" if "Suc k < length (us @ new)"
  proof (cases "Suc k < length us")
    case True
    then show ?thesis using last_le[of "Suc k"] by (simp add: nth_append)
  next
    case False
    then show ?thesis using A nth_new[of "Suc k"] that by simp
  qed
  have L: "?D (last (us @ new)) \<le> Suc (?D ((us @ new) ! Suc k))" if "Suc k < length (us @ new)"
  proof (cases "new = []")
    case True
    then show ?thesis using I5 lower[OF that] by simp
  next
    case False
    then have "last (us @ new) \<in> set new" by simp
    then show ?thesis using A lower[OF that] by simp
  qed
  have F: "v \<in> set (us @ new)"
    if lt: "Suc k < length (us @ new)" and r: "?R v" and le: "?D v \<le> ?D ((us @ new) ! Suc k)" for v
  proof (cases "?D v \<le> ?a")
    case True
    then show ?thesis using I6[OF r] by simp
  next
    case False
    then have dv: "?D v = Suc ?a" and dc: "?D ((us @ new) ! Suc k) = Suc ?a"
      using le upper[OF lt] by simp_all
    obtain p where p: "?R p" "?D p = ?a" "edge w nb ex p v"
      using reached_parent[OF r dv] by blast
    have "p \<in> set us" using I6[OF p(1)] p(2) by simp
    then obtain i where i: "i < length us" "us ! i = p" by (auto simp: in_set_conv_nth)
    have "i < Suc k"
    proof (rule ccontr)
      assume "\<not> i < Suc k"
      then have "Suc k \<le> i" by simp
      then have "?D ((us @ new) ! Suc k) \<le> ?D ((us @ new) ! i)"
        using S[of "Suc k" i] i(1) by simp
      then show False using dc i p(2) by (simp add: nth_append)
    qed
    moreover have "edge w nb ex ((us @ new) ! i) v" using i p(3) by (simp add: nth_append)
    ultimately show ?thesis by (rule C)
  qed
  have R: "?R v" if "v \<in> set (us @ new)" for v
    using that I2 A by auto
  show ?thesis
    unfolding bfs_order_def
    using dist k R S C L F by (intro conjI) (simp, simp, blast, blast, blast, blast, blast)
qed

lemma frontier_history_enqueued:
  assumes "frontier_history sink0 s us k" and "queue s \<noteq> []"
    and "enqueued (s\<lparr>queue := tl (queue s), visited := insert (hd (queue s)) (visited s)\<rparr>) t new"
  shows "frontier_history sink0 t (us @ new) (Suc k)"
proof -
  have k: "k < length us" using assms(1,2) by (auto simp: frontier_history_def)
  then have hd: "hd (queue s) = us ! k" and tl: "tl (queue s) = drop (Suc k) us"
    using assms(1) by (simp_all add: frontier_history_def hd_drop_conv_nth drop_Suc tl_drop)
  have tk: "set (take (Suc k) us) = insert (us ! k) (set (take k us))"
    using k by (simp add: take_Suc_conv_app_nth)
  show ?thesis
    using assms(1,3) k hd tl tk
    by (auto simp: enqueued_def frontier_history_def)
qed

lemma crawl_iteration_children:
  assumes h: "frontier_history sink0 s us k" and q: "queue s \<noteq> []"
    and it: "crawl_iteration w nb ex s = (None, t)"
  shows "\<exists>new. frontier_history sink0 t (us @ new) (Suc k) \<and>
               set new = {v. edge w nb ex (us ! k) v} - set us"
proof -
  let ?s2 = "s\<lparr>queue := tl (queue s), visited := insert (hd (queue s)) (visited s)\<rparr>"
  have k: "k < length us" using h q by (auto simp: frontier_history_def)
  then have hd: "hd (queue s) = us ! k"
    using h by (simp add: frontier_history_def hd_drop_conv_nth)
  have "us ! k \<notin> set (take k us)"
    using h k by (auto simp: frontier_history_def in_set_conv_nth nth_eq_iff_index_eq)
  then have nv: "hd (queue s) \<notin> visited s"
    using h hd by (simp add: frontier_history_def)
  have d2: "discovered ?s2 = set us" using h by (simp add: frontier_history_def)
  show ?thesis
  proof (cases rule: crawl_iteration_cases[of w nb ex s])
    case seen
    then show ?thesis using nv by simp
  next
    case failed
    then have t: "t = ?s2" using it by simp
    have "enqueued ?s2 t []" unfolding t by (simp add: enqueued_def)
    from frontier_history_enqueued[OF h q this]
    have "frontier_history sink0 t (us @ []) (Suc k)" .
    moreover have "{v. edge w nb ex (us ! k) v} - set us = set []"
      using failed(3) hd by (simp add: edge_def)
    ultimately show ?thesis by metis
  next
    case (raised e s3)
    then show ?thesis using it by simp
  next
    case (parsed s3)
    then have t: "t = s3\<lparr>sleeps := Suc (sleeps s3)\<rparr>" using it by simp
    from for_hrefs_targets[OF parsed(4)] obtain new where
      n: "enqueued ?s2 s3 new"
      "set new = {v. \<exists>href \<in> set (collect_hrefs w (fetch_html w (hd (queue s)))).
                    link_target w nb ex (hd (queue s)) href = Inr (Some v)} - discovered ?s2"
      by blast
    have "enqueued ?s2 t new" using n(1) unfolding t by (simp add: enqueued_def)
    from frontier_history_enqueued[OF h q this]
    have "frontier_history sink0 t (us @ new) (Suc k)" .
    moreover have "set new = {v. edge w nb ex (us ! k) v} - set us"
      unfolding n(2) d2 using parsed(3) hd by (auto simp: edge_def)
    ultimately show ?thesis by blast
  qed
qed

lemma bfs_order_reaches:
  assumes "crawl_reaches w nb ex s0 rs" and "frontier_history sink0 s0 [seed] 0"
  shows "fst rs = None \<longrightarrow>
         (\<exists>us k. frontier_history sink0 (snd rs) us k \<and> bfs_order w nb ex seed us k \<and> hd us = seed)"
  using assms(1)
proof (induction rule: crawl_reaches.induct)
  case start
  have "frontier_history sink0 s0 [seed] 0 \<and> bfs_order w nb ex seed [seed] 0 \<and> hd [seed] = seed"
    using assms(2) bfs_order_init[of w nb ex seed] by simp
  then show ?case by (intro impI exI[of _ "[seed]"] exI[of _ 0]) simp
next
  case (pass s1)
  show ?case
  proof
    assume n: "fst (crawl_iteration w nb ex s1) = None"
    from pass.IH obtain us k where
      u: "frontier_history sink0 s1 us k" "bfs_order w nb ex seed us k" "hd us = seed"
      by auto
    have it: "crawl_iteration w nb ex s1 = (None, snd (crawl_iteration w nb ex s1))"
      using n by (cases "crawl_iteration w nb ex s1") simp
    from crawl_iteration_children[OF u(1) pass.hyps(2) it] obtain new where
      new: "frontier_history sink0 (snd (crawl_iteration w nb ex s1)) (us @ new) (Suc k)"
      "set new = {v. edge w nb ex (us ! k) v} - set us"
      by blast
    have k: "k < length us" using u(1) pass.hyps(2) by (auto simp: frontier_history_def)
    have d: "distinct (us @ new)" using new(1) by (simp add: frontier_history_def)
    have "bfs_order w nb ex seed (us @ new) (Suc k)"
      by (rule bfs_order_step[OF u(2) k d new(2)])
    moreover have "hd (us @ new) = seed" using u(3) k by (cases us) auto
    ultimately show "\<exists>us k. frontier_history sink0 (snd (crawl_iteration w nb ex s1)) us k \<and>
        bfs_order w nb ex seed us k \<and> hd us = seed"
      using new(1) by blast
  qed
qed

text \<open>
  C8. Take a crawl that has raised no error so far. The URLs enqueued so far form a
  list \<open>us\<close> that starts with the seed; the sink holds their lines in this order, the
  queue is the list without its first \<open>k\<close> elements, and these are the visited URLs: the
  frontier is first in, first out. Every URL of the list has a depth in the link graph,
  and the depths do not decrease along the list, so no URL is written before a URL of a
  smaller depth. When a URL is about to be dequeued, every URL of the graph that is not
  deeper than it is already in the list, so every URL of depth \<open>N\<close> is enqueued and
  written before a URL of depth \<open>N + 1\<close> is dequeued. A further pass takes the first
  URL of the queue and appends at its end.
\<close>

theorem breadth_first_layering:
  assumes "crawl_seed w start_url base_prefix excludes sink0 = Inr (nb, s0)"
    and "crawl_reaches w nb excludes s0 (None, s)"
  shows "\<exists>us k. k \<le> length us \<and> hd us = hd (queue s0) \<and> distinct us \<and>
           sink s = sink0 @ map line_of us \<and> queue s = drop k us \<and> visited s = set (take k us) \<and>
           (\<forall>v \<in> set us. \<exists>n. depth_is w nb excludes (hd (queue s0)) v n) \<and>
           (\<forall>i j a b. i \<le> j \<and> j < length us \<and>
              depth_is w nb excludes (hd (queue s0)) (us ! i) a \<and>
              depth_is w nb excludes (hd (queue s0)) (us ! j) b \<longrightarrow> a \<le> b) \<and>
           (\<forall>v m a. k < length us \<and> depth_is w nb excludes (hd (queue s0)) (us ! k) a \<and>
              depth_is w nb excludes (hd (queue s0)) v m \<and> m \<le> a \<longrightarrow>
              v \<in> set us \<and> line_of v \<in> set (sink s)) \<and>
           (queue s \<noteq> [] \<longrightarrow>
              (\<exists>new. queue (snd (crawl_iteration w nb excludes s)) = tl (queue s) @ new))"
proof -
  obtain seed where seed: "frontier_history sink0 s0 [seed] 0"
    using frontier_history_seed[OF assms(1)] by blast
  then have q0: "hd (queue s0) = seed" by (simp add: frontier_history_def)
  from bfs_order_reaches[OF assms(2) seed] obtain us k where
    u: "frontier_history sink0 s us k" "bfs_order w nb excludes seed us k" "hd us = seed"
    by auto
  let ?R = "reached w nb excludes seed" and ?D = "depth_of w nb excludes seed"
  have I: "distinct us" "k \<le> length us"
    and I2: "\<And>v. v \<in> set us \<Longrightarrow> ?R v"
    and I3: "\<And>i j. i \<le> j \<Longrightarrow> j < length us \<Longrightarrow> ?D (us ! i) \<le> ?D (us ! j)"
    and I6: "\<And>v. k < length us \<Longrightarrow> ?R v \<Longrightarrow> ?D v \<le> ?D (us ! k) \<Longrightarrow> v \<in> set us"
    using u(2) unfolding bfs_order_def by blast+
  have h: "sink s = sink0 @ map line_of us" "queue s = drop k us" "visited s = set (take k us)"
    using u(1) by (simp_all add: frontier_history_def)
  have c1: "\<forall>v \<in> set us. \<exists>n. depth_is w nb excludes seed v n"
    using I2 by (auto simp: depth_is_iff)
  have c2: "\<forall>i j a b. i \<le> j \<and> j < length us \<and> depth_is w nb excludes seed (us ! i) a \<and>
              depth_is w nb excludes seed (us ! j) b \<longrightarrow> a \<le> b"
    using I3 by (auto simp: depth_is_iff)
  have c3: "\<forall>v m a. k < length us \<and> depth_is w nb excludes seed (us ! k) a \<and>
              depth_is w nb excludes seed v m \<and> m \<le> a \<longrightarrow>
              v \<in> set us \<and> line_of v \<in> set (sink s)"
    using I6 h(1) by (auto simp: depth_is_iff)
  have c4: "queue s \<noteq> [] \<longrightarrow>
              (\<exists>new. queue (snd (crawl_iteration w nb excludes s)) = tl (queue s) @ new)"
  proof
    assume "queue s \<noteq> []"
    obtain new where
      "enqueued (s\<lparr>queue := tl (queue s), visited := insert (hd (queue s)) (visited s)\<rparr>)
         (snd (crawl_iteration w nb excludes s)\<lparr>sleeps := sleeps s\<rparr>) new"
      using crawl_iteration_enqueued[of s w nb excludes] by blast
    then show "\<exists>new. queue (snd (crawl_iteration w nb excludes s)) = tl (queue s) @ new"
      by (intro exI[of _ new]) (simp add: enqueued_def)
  qed
  show ?thesis
    unfolding q0 using I u(3) h c1 c2 c3 c4 by blast
qed

lemma layered_seed:
  "crawl_seed layered_web ''http://h/d/'' ''http://h/d'' [] [] = Inr (''http://h/d'', layered_state 0 1 0)"
  by code_simp

lemma layered_pass1:
  "crawl_iteration layered_web ''http://h/d'' [] (layered_state 0 1 0) = (None, layered_state 1 3 1)"
  by code_simp

lemma layered_pass2:
  "crawl_iteration layered_web ''http://h/d'' [] (layered_state 1 3 1) = (None, layered_state 2 4 2)"
  by code_simp

lemma layered_pass3:
  "crawl_iteration layered_web ''http://h/d'' [] (layered_state 2 4 2) = (None, layered_state 3 5 3)"
  by code_simp

lemma layered_pass4:
  "crawl_iteration layered_web ''http://h/d'' [] (layered_state 3 5 3) = (None, layered_state 4 5 3)"
  by code_simp

lemma layered_pass5:
  "crawl_iteration layered_web ''http://h/d'' [] (layered_state 4 5 3) = (None, layered_state 5 6 4)"
  by code_simp

lemma layered_pass6:
  "crawl_iteration layered_web ''http://h/d'' [] (layered_state 5 6 4) = (None, layered_state 6 6 4)"
  by code_simp

lemma layered_reaches:
  "crawl_reaches layered_web ''http://h/d'' [] (layered_state 0 1 0) (None, layered_state 6 6 4)"
proof -
  have q: "queue (layered_state 0 1 0) \<noteq> []" "queue (layered_state 1 3 1) \<noteq> []"
    "queue (layered_state 2 4 2) \<noteq> []" "queue (layered_state 3 5 3) \<noteq> []"
    "queue (layered_state 4 5 3) \<noteq> []" "queue (layered_state 5 6 4) \<noteq> []"
    by (simp_all add: layered_state_def layered_urls_def)
  note r0 = crawl_reaches.start[of layered_web "''http://h/d''" "[]" "layered_state 0 1 0"]
  note r1 = crawl_reaches.pass[OF r0 q(1), unfolded layered_pass1]
  note r2 = crawl_reaches.pass[OF r1 q(2), unfolded layered_pass2]
  note r3 = crawl_reaches.pass[OF r2 q(3), unfolded layered_pass3]
  note r4 = crawl_reaches.pass[OF r3 q(4), unfolded layered_pass4]
  note r5 = crawl_reaches.pass[OF r4 q(5), unfolded layered_pass5]
  note r6 = crawl_reaches.pass[OF r5 q(6), unfolded layered_pass6]
  show ?thesis by (rule r6)
qed

lemma walk_1: "walk w nb ex seed (Suc 0) v \<Longrightarrow> edge w nb ex seed v"
  by (erule walk.cases) (auto dest: walk_0)

lemma line_of_inj: "map line_of us = map line_of vs \<Longrightarrow> us = vs"
  by (rule map_injective) (auto simp: inj_on_def line_of_def)

text \<open>
  On the site with four levels the sink holds the URLs level by level, with \<open>a/c\<close>,
  of depth two, before \<open>b/e/g\<close>, of depth three, although \<open>b/e/g\<close> lies below
  \<open>b\<close> and \<open>b\<close> was discovered after \<open>a\<close>.
\<close>

theorem breadth_first_layering_witness:
  "crawl_seed layered_web ''http://h/d/'' ''http://h/d'' [] [] =
     Inr (''http://h/d'', layered_state 0 1 0) \<and>
   crawl_reaches layered_web ''http://h/d'' [] (layered_state 0 1 0) (None, layered_state 6 6 4) \<and>
   queue (layered_state 6 6 4) = [] \<and>
   sink (layered_state 6 6 4) =
     map line_of [''http://h/d'', ''http://h/d/a'', ''http://h/d/b'', ''http://h/d/a/c'',
                  ''http://h/d/b/e'', ''http://h/d/b/e/g''] \<and>
   depth_is layered_web ''http://h/d'' [] ''http://h/d'' ''http://h/d/b'' 1 \<and>
   depth_is layered_web ''http://h/d'' [] ''http://h/d'' ''http://h/d/a/c'' 2 \<and>
   (\<exists>n. depth_is layered_web ''http://h/d'' [] ''http://h/d'' ''http://h/d/b/e/g'' n \<and> 2 \<le> n)"
proof -
  let ?nb = "''http://h/d''"
  let ?us = "[''http://h/d'', ''http://h/d/a'', ''http://h/d/b'', ''http://h/d/a/c'',
              ''http://h/d/b/e'', ''http://h/d/b/e/g'']"
  note seed = layered_seed
  note reach = layered_reaches
  have fin: "queue (layered_state 6 6 4) = []" "sink (layered_state 6 6 4) = map line_of ?us"
    by (simp_all add: layered_state_def layered_urls_def)
  have e1: "edge layered_web ?nb [] ?nb ''http://h/d/a''" by code_simp
  have e2: "edge layered_web ?nb [] ?nb ''http://h/d/b''" by code_simp
  have e3: "edge layered_web ?nb [] ''http://h/d/a'' ''http://h/d/a/c''" by code_simp
  have n1: "\<not> edge layered_web ?nb [] ?nb ''http://h/d/a/c''" by code_simp
  have w1: "walk layered_web ?nb [] ?nb (Suc 0) ''http://h/d/b''"
    by (rule walk.step[OF walk.start e2])
  have w2: "walk layered_web ?nb [] ?nb (Suc (Suc 0)) ''http://h/d/a/c''"
    by (rule walk.step[OF walk.step[OF walk.start e1] e3])
  have "\<not> walk layered_web ?nb [] ?nb 0 ''http://h/d/b''"
    using walk_0[of layered_web ?nb "[]" ?nb "''http://h/d/b''"] by auto
  then have d1: "depth_is layered_web ?nb [] ?nb ''http://h/d/b'' 1"
    using w1 by (simp add: depth_is_def)
  have n0: "\<not> walk layered_web ?nb [] ?nb 0 ''http://h/d/a/c''"
    using walk_0[of layered_web ?nb "[]" ?nb "''http://h/d/a/c''"] by auto
  have n1': "\<not> walk layered_web ?nb [] ?nb (Suc 0) ''http://h/d/a/c''"
    using walk_1[of layered_web ?nb "[]" ?nb "''http://h/d/a/c''"] n1 by auto
  have "\<not> walk layered_web ?nb [] ?nb m ''http://h/d/a/c''" if "m < 2" for m
  proof -
    have "m = 0 \<or> m = Suc 0" using that by auto
    then show ?thesis using n0 n1' by auto
  qed
  then have d2: "depth_is layered_web ?nb [] ?nb ''http://h/d/a/c'' 2"
    using w2 by (simp add: depth_is_def numeral_2_eq_2)
  have q0: "hd (queue (layered_state 0 1 0)) = ?nb"
    by (simp add: layered_state_def layered_urls_def)
  from breadth_first_layering[OF seed reach, unfolded q0] obtain us k where
    u: "sink (layered_state 6 6 4) = [] @ map line_of us"
    "\<forall>v \<in> set us. \<exists>n. depth_is layered_web ?nb [] ?nb v n"
    "\<forall>i j a b. i \<le> j \<and> j < length us \<and>
        depth_is layered_web ?nb [] ?nb (us ! i) a \<and>
        depth_is layered_web ?nb [] ?nb (us ! j) b \<longrightarrow> a \<le> b"
    by blast
  have "map line_of us = map line_of ?us" using u(1) fin(2) by simp
  then have us: "us = ?us" by (rule line_of_inj)
  have "''http://h/d/b/e/g'' \<in> set us" unfolding us by simp
  then obtain n where n: "depth_is layered_web ?nb [] ?nb ''http://h/d/b/e/g'' n"
    using u(2) by blast
  have i: "us ! 3 = ''http://h/d/a/c''" "us ! 5 = ''http://h/d/b/e/g''" "(3::nat) \<le> 5" "5 < length us"
    unfolding us by simp_all
  have "2 \<le> n"
    using u(3)[rule_format, of 3 5 2 n] i d2 n by simp
  then show ?thesis
    using seed reach fin d1 d2 n by blast
qed

end
